theory Spec2Isabelle
  imports Complex_Main "HOL-Library.Word"
begin

unbundle bit_operations_syntax

section \<open>The pitch shifter of alc/effects/pshifter.cpp\<close>

text \<open>
  A shallow embedding of \<^verbatim>\<open>PshifterState\<close> (deviceUpdate, update, process).

  Conventions of the model.
  \<^item> \<^verbatim>\<open>double\<close>, \<^verbatim>\<open>float\<close> and \<^verbatim>\<open>std::complex<double>\<close> are the real and complex
    numbers and the conversion \<^verbatim>\<open>static_cast<float>\<close> of the framer is the identity, with
    two exceptions, where the rounding decides what is stored: the accumulation and
    the wrap of the phase in the resynthesis loop (lines 257 to 265) and the pitch
    ratio of \<^verbatim>\<open>update\<close> (lines 138 to 141) round every operation to the nearest value
    of the format, ties to even (53 significant bits for \<^verbatim>\<open>double\<close>, 24 for \<^verbatim>\<open>float\<close>).
    The exponent is unbounded: overflow, subnormal numbers, NaN and infinities are not
    part of the model.
  \<^item> The \<^verbatim>\<open>int\<close> of the tuning is a 32-bit word read in two's complement, whose
    arithmetic wraps around (an overflow is undefined in C++). The \<^verbatim>\<open>int\<close> that
    \<^verbatim>\<open>double2int\<close> returns is an integer; in the resynthesis the converted quotient is
    at most 87727 in magnitude along a run (lemma \<open>synthesize_quotient_in_range\<close>), far
    inside the range of \<^verbatim>\<open>int\<close>.
  \<^item> \<^verbatim>\<open>uint\<close> is a 32-bit word and the fixed-point index arithmetic of the bin
    remapper is done on 64-bit words (\<^verbatim>\<open>size_t\<close>), so that it wraps as the code does.
  \<^item> The counters \<^verbatim>\<open>mCount\<close>, \<^verbatim>\<open>mPos\<close>, \<^verbatim>\<open>base\<close> are natural numbers; the one
    subtraction that could go below zero has its wrap-around written out.
  \<^item> \<^verbatim>\<open>std::array\<close> is a list; the array sizes are the lengths of a well-formed state.
  \<^item> What the file takes from other headers is a parameter: the number of fractional
    bits of the mixer, \<^verbatim>\<open>fastf2u\<close>, \<^verbatim>\<open>std::pow\<close> on \<^verbatim>\<open>float\<close>, the two transforms, the
    panning gains and the mixer.
  \<^item> The integer division by \<^verbatim>\<open>mPitchShiftI\<close> has no result when the divisor is zero.
\<close>

type_synonym size_t = "64 word"
type_synonym uint = "32 word"
type_synonym c_int = "32 word"

definition StftSize :: nat where
  "StftSize = 1024"

definition StftHalfSize :: nat where
  "StftHalfSize = StftSize div 2"

definition OversampleFactor :: nat where
  "OversampleFactor = 4"

definition StftStep :: nat where
  "StftStep = StftSize div OversampleFactor"

text \<open>
  Modelled from the spec: \<^verbatim>\<open>minz\<close> and \<^verbatim>\<open>maxz\<close> of alnumeric.h, which is not among the
  sources. They are the smaller and the larger of two sizes: the scan range is
  "clamped" by the first, and the crossfade length is "the larger of block length or
  a fixed minimum" by the second.
\<close>

definition minz :: "'a::linorder \<Rightarrow> 'a \<Rightarrow> 'a" where
  "minz a b = (if a > b then b else a)"

definition maxz :: "'a::linorder \<Rightarrow> 'a \<Rightarrow> 'a" where
  "maxz a b = (if a > b then a else b)"

subsection \<open>Fixed-point constants and the bin remapper's index arithmetic\<close>

text \<open>
  Modelled from the spec: the fixed-point constants of core/mixer/defs.h, which is not
  among the sources. \<^verbatim>\<open>MixerFracBits\<close>, the "fractional-bit width", stays a parameter,
  \<open>fb\<close>. \<^verbatim>\<open>MixerFracOne\<close> is the fixed-point one, \<^verbatim>\<open>1 << MixerFracBits\<close>, and
  \<^verbatim>\<open>MixerFracHalf\<close> is its half, \<^verbatim>\<open>MixerFracOne >> 1\<close>, which the remapper adds before
  the shift so that the index is rounded ("fixed-point scaling with defined
  rounding"). Both are \<^verbatim>\<open>int\<close> constants, so \<open>fb \<le> 30\<close>.
\<close>

definition MixerFracOne :: "nat \<Rightarrow> size_t" where
  "MixerFracOne fb = push_bit fb 1"

definition MixerFracHalf :: "nat \<Rightarrow> size_t" where
  "MixerFracHalf fb = drop_bit 1 (MixerFracOne fb)"

text \<open>\<^verbatim>\<open>bin_limit{((StftHalfSize+1)<<MixerFracBits) - MixerFracHalf - 1}\<close>\<close>

definition bin_limit :: "nat \<Rightarrow> size_t" where
  "bin_limit fb = push_bit fb (word_of_nat (StftHalfSize + 1)) - MixerFracHalf fb - 1"

text \<open>
  \<^verbatim>\<open>bin_count{minz(StftHalfSize+1, bin_limit/mPitchShiftI + 1)}\<close>: no result when
  \<^verbatim>\<open>mPitchShiftI\<close> is zero.
\<close>

definition bin_count :: "nat \<Rightarrow> uint \<Rightarrow> size_t option" where
  "bin_count fb ps =
     (if ps = 0 then None
      else Some (minz (word_of_nat (StftHalfSize + 1)) (bin_limit fb div ucast ps + 1)))"

text \<open>\<^verbatim>\<open>j{(k*mPitchShiftI + MixerFracHalf) >> MixerFracBits}\<close>\<close>

definition bin_dest :: "nat \<Rightarrow> uint \<Rightarrow> size_t \<Rightarrow> size_t" where
  "bin_dest fb ps k = drop_bit fb (k * ucast ps + MixerFracHalf fb)"

subsection \<open>Rounded arithmetic\<close>

text \<open>
  Rounding to the nearest integer, ties to the even one; and rounding of a real
  number to \<open>p\<close> significant bits: the number is divided by the unit in the last place
  of its binade, rounded to an integer, and multiplied back.
\<close>

definition round_even :: "real \<Rightarrow> int" where
  "round_even y =
     (let f = \<lfloor>y\<rfloor>; d = y - of_int f
      in if d < 1 / 2 then f else if 1 / 2 < d then f + 1 else if even f then f else f + 1)"

definition rnd :: "nat \<Rightarrow> real \<Rightarrow> real" where
  "rnd p x =
     (if x = 0 then 0
      else let ulp = 2 powr (of_int \<lfloor>log 2 \<bar>x\<bar>\<rfloor> - real p + 1)
           in of_int (round_even (x / ulp)) * ulp)"

text \<open>
  The conversions to \<^verbatim>\<open>double\<close> and to \<^verbatim>\<open>float\<close>, and the operations of the two formats
  that the rounded parts of the model use.
\<close>

definition to_double :: "real \<Rightarrow> real" where
  "to_double x = rnd 53 x"

definition dadd :: "real \<Rightarrow> real \<Rightarrow> real" where
  "dadd x y = rnd 53 (x + y)"

definition dsub :: "real \<Rightarrow> real \<Rightarrow> real" where
  "dsub x y = rnd 53 (x - y)"

definition dmul :: "real \<Rightarrow> real \<Rightarrow> real" where
  "dmul x y = rnd 53 (x * y)"

definition ddiv :: "real \<Rightarrow> real \<Rightarrow> real" where
  "ddiv x y = rnd 53 (x / y)"

definition to_float :: "real \<Rightarrow> real" where
  "to_float x = rnd 24 x"

definition fmul :: "real \<Rightarrow> real \<Rightarrow> real" where
  "fmul x y = rnd 24 (x * y)"

definition fdiv :: "real \<Rightarrow> real \<Rightarrow> real" where
  "fdiv x y = rnd 24 (x / y)"

text \<open>
  Modelled from the spec: \<^verbatim>\<open>al::numbers::pi\<close> and \<^verbatim>\<open>al::numbers::inv_pi\<close> of alnumbers.h,
  which is not among the sources, as the resynthesis uses them: the constants
  "pi" and one over "pi" of the specification in the format \<^verbatim>\<open>double\<close>, that is the
  doubles nearest to them, \<^verbatim>\<open>0x1.921fb54442d18p+1\<close> and \<^verbatim>\<open>0x1.45f306dc9c883p-2\<close>.
\<close>

definition pi_d :: real where
  "pi_d = 884279719003555 / 2 ^ 48"

definition inv_pi_d :: real where
  "inv_pi_d = 5734161139222659 / 2 ^ 54"

subsection \<open>Helpers of other headers\<close>

text \<open>
  Modelled from the spec: \<^verbatim>\<open>double2int\<close> of alnumeric.h, which is not among the sources.
  It is the conversion of a \<^verbatim>\<open>double\<close> to an \<^verbatim>\<open>int\<close>, which truncates towards zero; with
  it the quotient the code subtracts, \<^verbatim>\<open>qpd + qpd%2\<close>, is the specification's
  "2 x round(x/2)" (lemma \<open>even_quotient\<close> below).
\<close>

definition double2int :: "real \<Rightarrow> int" where
  "double2int d = (if 0 \<le> d then \<lfloor>d\<rfloor> else \<lceil>d\<rceil>)"

text \<open>The operator \<^verbatim>\<open>%\<close> of C++ on \<^verbatim>\<open>int\<close>: the remainder has the sign of the dividend.\<close>

definition c_rem :: "int \<Rightarrow> int \<Rightarrow> int" where
  "c_rem a b = sgn a * (\<bar>a\<bar> mod \<bar>b\<bar>)"

text \<open>
  Modelled from the spec: \<^verbatim>\<open>al::numbers::inv_pi\<close> of alnumbers.h, which is not among the
  sources; the analyzer "normalizes by pi" with it.
\<close>

definition inv_pi :: real where
  "inv_pi = 1 / pi"

text \<open>\<^verbatim>\<open>std::polar\<close>, and \<^verbatim>\<open>std::fill\<close>, \<^verbatim>\<open>std::copy_n\<close>, \<^verbatim>\<open>std::fill_n\<close> on arrays with offsets.\<close>

definition polar :: "real \<Rightarrow> real \<Rightarrow> complex" where
  "polar r theta = Complex (r * cos theta) (r * sin theta)"

definition fill :: "'a list \<Rightarrow> 'a \<Rightarrow> 'a list" where
  "fill xs v = map (\<lambda>_. v) xs"

definition copy_n :: "'a list \<Rightarrow> nat \<Rightarrow> nat \<Rightarrow> 'a list \<Rightarrow> nat \<Rightarrow> 'a list" where
  "copy_n src s n dst d = fold (\<lambda>i acc. acc[d + i := src ! (s + i)]) [0..<n] dst"

definition fill_n :: "'a list \<Rightarrow> nat \<Rightarrow> nat \<Rightarrow> 'a \<Rightarrow> 'a list" where
  "fill_n dst d n v = fold (\<lambda>i acc. acc[d + i := v]) [0..<n] dst"

text \<open>
  The subtraction of two \<^verbatim>\<open>size_t\<close> values, which wraps around below zero.
\<close>

definition size_t_sub :: "nat \<Rightarrow> nat \<Rightarrow> nat" where
  "size_t_sub a b = (if b \<le> a then a - b else (a + 2 ^ 64 - b) mod 2 ^ 64)"

text \<open>
  What the effect calls in other translation units: the fractional bits of the mixer,
  \<^verbatim>\<open>fastf2u\<close>, \<^verbatim>\<open>std::pow\<close> on two \<^verbatim>\<open>float\<close> arguments, the forward and inverse transform (in place on the buffer, here from the
  old buffer to the new), the buffer of a \<^verbatim>\<open>MixParams\<close>, \<^verbatim>\<open>CalcDirectionCoeffs\<close>,
  \<^verbatim>\<open>ComputePanGains\<close> (from the mix parameters, the coefficients, the input gain and
  the old gains to the new gains) and \<^verbatim>\<open>MixSamples\<close> (from the input samples, the
  output buffer, the current and target gains, the counter and the output position
  to the new output buffer and the new current gains).
\<close>

record 'm externals =
  MixerFracBits :: nat
  fastf2u :: "real \<Rightarrow> uint"
  powf :: "real \<Rightarrow> real \<Rightarrow> real"
  forward_fft :: "complex list \<Rightarrow> complex list"
  inverse_fft :: "complex list \<Rightarrow> complex list"
  Buffer :: "'m \<Rightarrow> real list list"
  CalcDirectionCoeffs :: "real list \<Rightarrow> real list"
  ComputePanGains :: "'m \<Rightarrow> real list \<Rightarrow> real \<Rightarrow> real list \<Rightarrow> real list"
  MixSamples :: "real list \<Rightarrow> real list list \<Rightarrow> real list \<Rightarrow> real list \<Rightarrow> nat \<Rightarrow> nat
                 \<Rightarrow> real list list \<times> real list"

subsection \<open>The Hann window\<close>

text \<open>
  \<^verbatim>\<open>InitHannWindow\<close>: every entry of the array is written once; the array starts here
  as zeros.
\<close>

definition InitHannWindow :: "real list" where
  "InitHannWindow =
     fold (\<lambda>i ret.
             let scale = pi / real StftSize;
                 val = sin ((real i + 0.5) * scale)
             in (ret[StftSize - 1 - i := val * val])[i := val * val])
          [0..<StftHalfSize] (replicate StftSize 0)"

definition HannWindow :: "real list" where
  "HannWindow = InitHannWindow"

subsection \<open>The state\<close>

record FrequencyBin =
  Magnitude :: real
  FreqBin :: real

definition FrequencyBin0 :: FrequencyBin where
  "FrequencyBin0 = \<lparr>Magnitude = 0, FreqBin = 0\<rparr>"

text \<open>\<^verbatim>\<open>mOutTarget\<close> is the field of the base class \<^verbatim>\<open>EffectState\<close>.\<close>

record PshifterState =
  mOutTarget :: "real list list"
  mCount :: nat
  mPos :: nat
  mPitchShiftI :: uint
  mPitchShift :: real
  mFIFO :: "real list"
  mLastPhase :: "real list"
  mSumPhase :: "real list"
  mOutputAccum :: "real list"
  mFftBuffer :: "complex list"
  mAnalysisBuffer :: "FrequencyBin list"
  mSynthesisBuffer :: "FrequencyBin list"
  mBufferOut :: "real list"
  mCurrentGains :: "real list"
  mTargetGains :: "real list"

record PshifterProps =
  CoarseTune :: c_int
  FineTune :: c_int

record EffectProps =
  Pshifter :: PshifterProps

record EffectSlot =
  Gain :: real

record 'm EffectTarget =
  Main :: 'm

subsection \<open>deviceUpdate\<close>

definition deviceUpdate :: "'m externals \<Rightarrow> PshifterState \<Rightarrow> PshifterState" where
  "deviceUpdate E st =
     st\<lparr>mCount := 0,
        mPos := StftSize - StftStep,
        mPitchShiftI := ucast (MixerFracOne (MixerFracBits E)),
        mPitchShift := 1,
        mFIFO := fill (mFIFO st) 0,
        mLastPhase := fill (mLastPhase st) 0,
        mSumPhase := fill (mSumPhase st) 0,
        mOutputAccum := fill (mOutputAccum st) 0,
        mFftBuffer := fill (mFftBuffer st) 0,
        mAnalysisBuffer := fill (mAnalysisBuffer st) FrequencyBin0,
        mSynthesisBuffer := fill (mSynthesisBuffer st) FrequencyBin0,
        mCurrentGains := fill (mCurrentGains st) 0,
        mTargetGains := fill (mTargetGains st) 0\<rparr>"

subsection \<open>update\<close>

text \<open>
  The tuning is added up on \<^verbatim>\<open>int\<close>; the pitch is computed on \<^verbatim>\<open>float\<close>, from the tuning
  converted to \<^verbatim>\<open>float\<close>; \<^verbatim>\<open>mPitchShift\<close> is computed on \<^verbatim>\<open>double\<close>, from \<^verbatim>\<open>mPitchShiftI\<close>
  converted to \<^verbatim>\<open>double\<close>.
\<close>

definition update ::
  "'m externals \<Rightarrow> EffectSlot \<Rightarrow> EffectProps \<Rightarrow> 'm EffectTarget \<Rightarrow> PshifterState \<Rightarrow> PshifterState"
where
  "update E slot props target st =
     (let tune = CoarseTune (Pshifter props) * 100 + FineTune (Pshifter props);
          pitch = powf E 2 (fdiv (to_float (real_of_int (sint tune))) 1200);
          st = st\<lparr>mPitchShiftI :=
                   fastf2u E (fmul pitch (to_float (real (unat (MixerFracOne (MixerFracBits E))))))\<rparr>;
          st = st\<lparr>mPitchShift :=
                   dmul (to_double (real (unat (mPitchShiftI st))))
                        (ddiv 1 (to_double (real (unat (MixerFracOne (MixerFracBits E))))))\<rparr>;
          coeffs = CalcDirectionCoeffs E [0, 0, -1];
          st = st\<lparr>mOutTarget := Buffer E (Main target)\<rparr>
      in st\<lparr>mTargetGains := ComputePanGains E (Main target) coeffs (Gain slot) (mTargetGains st)\<rparr>)"

subsection \<open>process: one analysis and resynthesis cycle\<close>

definition expected_cycles :: real where
  "expected_cycles = pi * 2 / real OversampleFactor"

text \<open>The same constant as the resynthesis uses it, computed on \<^verbatim>\<open>double\<close>.\<close>

definition expected_cycles_d :: real where
  "expected_cycles_d = ddiv (dmul pi_d 2) (to_double (real OversampleFactor))"

text \<open>
  Windowing of the time-domain signal into \<^verbatim>\<open>mFftBuffer\<close> (the two loops over \<^verbatim>\<open>src\<close>).
\<close>

definition window_input :: "PshifterState \<Rightarrow> PshifterState" where
  "window_input st =
     (let buf = fold (\<lambda>src buf.
                    let k = src - mPos st
                    in buf[k := complex_of_real (mFIFO st ! src * HannWindow ! k)])
                  [mPos st..<StftSize] (mFftBuffer st);
          buf = fold (\<lambda>src buf.
                    let k = StftSize - mPos st + src
                    in buf[k := complex_of_real (mFIFO st ! src * HannWindow ! k)])
                  [0..<mPos st] buf
      in st\<lparr>mFftBuffer := buf\<rparr>)"

text \<open>The body of the analysis loop, for bin \<open>k\<close>.\<close>

definition analyze_bin :: "nat \<Rightarrow> PshifterState \<Rightarrow> PshifterState" where
  "analyze_bin k st =
     (let magnitude = cmod (mFftBuffer st ! k);
          phase = Arg (mFftBuffer st ! k);
          bin_offset = real (k mod OversampleFactor);
          tmp = (phase - mLastPhase st ! k) - bin_offset * expected_cycles;
          st = st\<lparr>mLastPhase := (mLastPhase st)[k := phase]\<rparr>;
          tmp = tmp * inv_pi;
          qpd = double2int tmp;
          tmp = tmp - real_of_int (qpd + c_rem qpd 2);
          tmp = tmp * (0.5 * real OversampleFactor)
      in st\<lparr>mAnalysisBuffer :=
              (mAnalysisBuffer st)[k := \<lparr>Magnitude = magnitude, FreqBin = real k + tmp\<rparr>]\<rparr>)"

definition analyze :: "PshifterState \<Rightarrow> PshifterState" where
  "analyze st = fold analyze_bin [0..<StftHalfSize + 1] st"

text \<open>
  The body of the remapping loop, for analysis bin \<open>k\<close>, on the synthesis buffer.
\<close>

definition remap_bin ::
  "nat \<Rightarrow> uint \<Rightarrow> real \<Rightarrow> FrequencyBin list \<Rightarrow> nat \<Rightarrow> FrequencyBin list \<Rightarrow> FrequencyBin list"
where
  "remap_bin fb psI ps an k syn =
     (let j = unat (bin_dest fb psI (word_of_nat k));
          syn = (if Magnitude (an ! k) > Magnitude (syn ! j)
                 then syn[j := (syn ! j)\<lparr>FreqBin := FreqBin (an ! k) * ps\<rparr>]
                 else syn)
      in syn[j := (syn ! j)\<lparr>Magnitude := Magnitude (syn ! j) + Magnitude (an ! k)\<rparr>])"

definition remap :: "'m externals \<Rightarrow> PshifterState \<Rightarrow> PshifterState option" where
  "remap E st =
     (let syn = fill (mSynthesisBuffer st) FrequencyBin0
      in case bin_count (MixerFracBits E) (mPitchShiftI st) of
           None \<Rightarrow> None
         | Some bc \<Rightarrow>
             Some (st\<lparr>mSynthesisBuffer :=
                        fold (remap_bin (MixerFracBits E) (mPitchShiftI st) (mPitchShift st)
                                (mAnalysisBuffer st))
                             [0..<unat bc] syn\<rparr>))"

text \<open>
  The body of the resynthesis loop, for bin \<open>k\<close>, and the mirrored upper half. The
  phase is accumulated and wrapped on \<^verbatim>\<open>double\<close>, every operation rounded; the
  conversion of the \<^verbatim>\<open>int\<close> \<^verbatim>\<open>qpd + (qpd%2)\<close> to \<^verbatim>\<open>double\<close> is exact.
\<close>

definition synthesize_bin :: "nat \<Rightarrow> PshifterState \<Rightarrow> PshifterState" where
  "synthesize_bin k st =
     (let tmp = dadd (mSumPhase st ! k) (dmul (FreqBin (mSynthesisBuffer st ! k)) expected_cycles_d);
          qpd = double2int (dmul tmp inv_pi_d);
          tmp = dsub tmp (dmul pi_d (real_of_int (qpd + c_rem qpd 2)));
          st = st\<lparr>mSumPhase := (mSumPhase st)[k := tmp]\<rparr>
      in st\<lparr>mFftBuffer :=
              (mFftBuffer st)[k := polar (Magnitude (mSynthesisBuffer st ! k)) (mSumPhase st ! k)]\<rparr>)"

definition synthesize :: "PshifterState \<Rightarrow> PshifterState" where
  "synthesize st =
     (let st = fold synthesize_bin [0..<StftHalfSize + 1] st
      in st\<lparr>mFftBuffer :=
              fold (\<lambda>k buf. buf[k := cnj (buf ! (StftSize - k))])
                   [StftHalfSize + 1..<StftSize] (mFftBuffer st)\<rparr>)"

text \<open>Windowed accumulation of the time-domain signal into \<^verbatim>\<open>mOutputAccum\<close>.\<close>

definition overlap_add :: "PshifterState \<Rightarrow> PshifterState" where
  "overlap_add st =
     (let scale = 4 / real OversampleFactor / real StftSize;
          acc = fold (\<lambda>dst acc.
                    let k = dst - mPos st
                    in acc[dst := acc ! dst + HannWindow ! k * Re (mFftBuffer st ! k) * scale])
                  [mPos st..<StftSize] (mOutputAccum st);
          acc = fold (\<lambda>dst acc.
                    let k = StftSize - mPos st + dst
                    in acc[dst := acc ! dst + HannWindow ! k * Re (mFftBuffer st ! k) * scale])
                  [0..<mPos st] acc
      in st\<lparr>mOutputAccum := acc\<rparr>)"

text \<open>
  The cycle up to the accumulation (lines 184 to 281), and its last two statements,
  which copy the accumulated result out and clear it.
\<close>

definition hop_spectral :: "'m externals \<Rightarrow> PshifterState \<Rightarrow> PshifterState option" where
  "hop_spectral E st =
     (let st = window_input st;
          st = st\<lparr>mFftBuffer := forward_fft E (mFftBuffer st)\<rparr>;
          st = analyze st
      in case remap E st of
           None \<Rightarrow> None
         | Some st \<Rightarrow>
             (let st = synthesize st;
                  st = st\<lparr>mFftBuffer := inverse_fft E (mFftBuffer st)\<rparr>
              in Some (overlap_add st)))"

definition copy_out :: "PshifterState \<Rightarrow> PshifterState" where
  "copy_out st =
     (let st = st\<lparr>mFIFO := copy_n (mOutputAccum st) (mPos st) StftStep (mFIFO st) (mPos st)\<rparr>
      in st\<lparr>mOutputAccum := fill_n (mOutputAccum st) (mPos st) StftStep 0\<rparr>)"

definition hop :: "'m externals \<Rightarrow> PshifterState \<Rightarrow> PshifterState option" where
  "hop E st = map_option copy_out (hop_spectral E st)"

subsection \<open>process: the framer\<close>

text \<open>
  The part of the loop body before the test \<^verbatim>\<open>mCount < StftStep\<close>: \<open>todo\<close> samples go from
  the FIFO to \<^verbatim>\<open>mBufferOut\<close> and from the first input line to the FIFO.
\<close>

definition framer_chunk :: "real list \<Rightarrow> nat \<Rightarrow> nat \<Rightarrow> PshifterState \<Rightarrow> PshifterState" where
  "framer_chunk inp base todo st =
     (let fifo_iter = mPos st + mCount st;
          st = st\<lparr>mBufferOut := copy_n (mFIFO st) fifo_iter todo (mBufferOut st) base\<rparr>;
          st = st\<lparr>mFIFO := copy_n inp base todo (mFIFO st) fifo_iter\<rparr>
      in st\<lparr>mCount := mCount st + todo\<rparr>)"

text \<open>
  The loop of \<^verbatim>\<open>process\<close> over \<open>base\<close>, on the first input line \<open>inp\<close>; \<^verbatim>\<open>break\<close> ends it.
\<close>

function process_loop ::
  "'m externals \<Rightarrow> nat \<Rightarrow> real list \<Rightarrow> nat \<Rightarrow> PshifterState \<Rightarrow> PshifterState option"
where
  "process_loop E samplesToDo inp base st =
     (if base < samplesToDo then
        (let todo = minz (size_t_sub StftStep (mCount st)) (samplesToDo - base);
             st = framer_chunk inp base todo st;
             base = base + todo
         in if mCount st < StftStep then Some st
            else (let st = st\<lparr>mCount := 0\<rparr>;
                      st = st\<lparr>mPos := (mPos st + StftStep) AND (StftSize - 1)\<rparr>
                  in case hop E st of
                       None \<Rightarrow> None
                     | Some st \<Rightarrow> process_loop E samplesToDo inp base st))
      else Some st)"
  by pat_completeness auto


definition process ::
  "'m externals \<Rightarrow> nat \<Rightarrow> real list list \<Rightarrow> real list list \<Rightarrow> PshifterState
     \<Rightarrow> (PshifterState \<times> real list list) option"
where
  "process E samplesToDo samplesIn samplesOut st =
     (case process_loop E samplesToDo (samplesIn ! 0) 0 st of
        None \<Rightarrow> None
      | Some st \<Rightarrow>
          (let (out, gains) = MixSamples E (take samplesToDo (mBufferOut st)) samplesOut
                                (mCurrentGains st) (mTargetGains st) (maxz samplesToDo 512) 0
           in Some (st\<lparr>mCurrentGains := gains\<rparr>, out)))"

subsection \<open>Sequences of calls\<close>

text \<open>
  The host calls the three operations one after the other; a run is a list of such
  calls, and it has no result when one of them has none.
\<close>

datatype 'm call =
    DeviceUpdate
  | Update EffectSlot EffectProps "'m EffectTarget"
  | Process nat "real list list" "real list list"

fun exec :: "'m externals \<Rightarrow> 'm call \<Rightarrow> PshifterState \<Rightarrow> PshifterState option" where
  "exec E DeviceUpdate st = Some (deviceUpdate E st)"
| "exec E (Update slot props target) st = Some (update E slot props target st)"
| "exec E (Process n ins outs) st = map_option fst (process E n ins outs st)"

fun run :: "'m externals \<Rightarrow> 'm call list \<Rightarrow> PshifterState \<Rightarrow> PshifterState option" where
  "run E [] st = Some st"
| "run E (c # cs) st = (case exec E c st of None \<Rightarrow> None | Some st' \<Rightarrow> run E cs st')"

subsection \<open>An instance of the parameters and a well-formed state\<close>

text \<open>
  An instance of the externals (16 fractional bits, a conversion to \<^verbatim>\<open>uint\<close> that
  rounds to the nearest integer, a correctly rounded power, transforms that leave the
  buffer as it is) and
  the state of a fresh effect, on which the theorems are instantiated.
\<close>

definition example_externals :: "unit externals" where
  "example_externals =
     \<lparr>MixerFracBits = 16,
      fastf2u = (\<lambda>x. word_of_int (round_even x)),
      powf = (\<lambda>x y. to_float (x powr y)),
      forward_fft = (\<lambda>buf. buf),
      inverse_fft = (\<lambda>buf. buf),
      Buffer = (\<lambda>_. []),
      CalcDirectionCoeffs = (\<lambda>dir. dir),
      ComputePanGains = (\<lambda>_ _ gain gains. map (\<lambda>_. gain) gains),
      MixSamples = (\<lambda>_ out _ target _ _. (out, target))\<rparr>"

definition example_state :: PshifterState where
  "example_state =
     \<lparr>mOutTarget = [],
      mCount = 0,
      mPos = 768,
      mPitchShiftI = 65536,
      mPitchShift = 1,
      mFIFO = replicate 1024 0,
      mLastPhase = replicate 513 0,
      mSumPhase = replicate 513 0,
      mOutputAccum = replicate 1024 0,
      mFftBuffer = replicate 1024 0,
      mAnalysisBuffer = replicate 513 FrequencyBin0,
      mSynthesisBuffer = replicate 513 FrequencyBin0,
      mBufferOut = replicate 1024 0,
      mCurrentGains = replicate 16 0,
      mTargetGains = replicate 16 0\<rparr>"

text \<open>
  Modelled from the spec: the forward transform is an unnormalized discrete Fourier
  transform of the buffer ("forward produces an unnormalized discrete transform"); its
  code is not part of this file. \<open>dft\<close> is that transform on exact numbers, and
  \<open>impulse_externals\<close> is the instance above with it as the forward transform.
  \<open>impulse_input\<close> is one block of 256 samples, a unit impulse followed by silence.
\<close>

definition dft :: "complex list \<Rightarrow> complex list" where
  "dft buf = map (\<lambda>k. \<Sum>n<length buf. buf ! n * cis (- (2 * pi * real k * real n / real (length buf))))
                 [0..<length buf]"

definition impulse_externals :: "unit externals" where
  "impulse_externals = example_externals\<lparr>forward_fft := dft\<rparr>"

definition impulse_input :: "real list" where
  "impulse_input = 1 # replicate 255 0"

subsection \<open>Invariants\<close>

text \<open>
  The cursor is a multiple of the hop size below the frame size, and the hop counter
  is below the hop size.
\<close>

definition framer_inv :: "PshifterState \<Rightarrow> bool" where
  "framer_inv st \<longleftrightarrow>
     StftStep dvd mPos st \<and> mPos st \<le> StftSize - StftStep \<and> mCount st < StftStep"


text \<open>
  Lines 264 and 265 as functions of the advanced phase \<open>tmp\<close>: the even number of half
  turns \<^verbatim>\<open>qpd + (qpd%2)\<close>, and the wrapped phase that is stored.
\<close>

definition half_turns :: "real \<Rightarrow> int" where
  "half_turns tmp = (let qpd = double2int (dmul tmp inv_pi_d) in qpd + c_rem qpd 2)"

definition wrap_phase :: "real \<Rightarrow> real" where
  "wrap_phase tmp = dsub tmp (dmul pi_d (real_of_int (half_turns tmp)))"

text \<open>
  The bound of the accumulated phases: \<open>pi\<close> and a relative excess of \<open>1 / 2 ^ 33\<close>, which
  covers the rounding of one wrap. Every accumulated phase is within it.
\<close>

definition phase_bound :: real where
  "phase_bound = pi * (1 + 1 / 2 ^ 33)"

definition phase_inv :: "PshifterState \<Rightarrow> bool" where
  "phase_inv st \<longleftrightarrow> (\<forall>x \<in> set (mSumPhase st). \<bar>x\<bar> \<le> phase_bound)"

text \<open>
  The sizes of the two bin arrays and of the accumulated phases; the analysis
  frequency of bin \<open>k\<close> is within 2 of \<open>k\<close>; the floating pitch is the fixed-point pitch
  over \<^verbatim>\<open>MixerFracOne\<close>.
\<close>

definition spectral_wf :: "PshifterState \<Rightarrow> bool" where
  "spectral_wf st \<longleftrightarrow>
     length (mAnalysisBuffer st) = StftHalfSize + 1 \<and>
     length (mSynthesisBuffer st) = StftHalfSize + 1 \<and>
     length (mSumPhase st) = StftHalfSize + 1"

definition freq_inv :: "PshifterState \<Rightarrow> bool" where
  "freq_inv st \<longleftrightarrow>
     (\<forall>k < length (mAnalysisBuffer st). \<bar>FreqBin (mAnalysisBuffer st ! k)\<bar> \<le> real k + 2)"

definition pitch_inv :: "'m externals \<Rightarrow> PshifterState \<Rightarrow> bool" where
  "pitch_inv E st \<longleftrightarrow>
     mPitchShift st = real (unat (mPitchShiftI st)) / 2 ^ MixerFracBits E"

text \<open>What a run keeps besides the framer invariant.\<close>

definition phase_run_inv :: "'m externals \<Rightarrow> PshifterState \<Rightarrow> bool" where
  "phase_run_inv E st \<longleftrightarrow> spectral_wf st \<and> freq_inv st \<and> pitch_inv E st \<and> phase_inv st"

text \<open>The partial sums of the series of the arc tangent, for the digits of \<open>pi\<close>.\<close>

definition arctan_sum :: "real \<Rightarrow> nat \<Rightarrow> real" where
  "arctan_sum x n = (\<Sum>i<n. (- 1) ^ i * (1 / real (i * 2 + 1) * x ^ (i * 2 + 1)))"


text \<open>
  A state whose synthesis bin 22 holds the frequency 22, as after the first cycle
  from the reset state on a spectrum whose bin 22 is a negative real number.
\<close>

definition example_synthesis_state :: PshifterState where
  "example_synthesis_state =
     example_state\<lparr>mSynthesisBuffer :=
       (mSynthesisBuffer example_state)[22 := \<lparr>Magnitude = 1, FreqBin = 22\<rparr>]\<rparr>"

subsection \<open>The analysis in the words of the specification\<close>

text \<open>C's \<^verbatim>\<open>round\<close>: to the nearest integer, halfway cases away from zero.\<close>

definition c_round :: "real \<Rightarrow> int" where
  "c_round x = (if 0 \<le> x then \<lfloor>x + 1 / 2\<rfloor> else \<lceil>x - 1 / 2\<rceil>)"

text \<open>The fold of the specification: subtract twice the rounded half.\<close>

definition fold_unit :: "real \<Rightarrow> real" where
  "fold_unit x = x - 2 * real_of_int (c_round (x / 2))"

text \<open>
  The analysis of the specification for bin \<open>k\<close>, from the spectral coefficient \<open>z\<close> and the last
  observed phase: the phase difference, less the expected advance, over \<open>pi\<close>, folded,
  scaled by half the oversampling factor and added to the bin index.
\<close>

definition analysis_spec :: "nat \<Rightarrow> complex \<Rightarrow> real \<Rightarrow> FrequencyBin" where
  "analysis_spec k z prev =
     \<lparr>Magnitude = cmod z,
      FreqBin = real k + 0.5 * real OversampleFactor
                  * fold_unit (((Arg z - prev)
                                - real (k mod OversampleFactor) * (2 * pi / real OversampleFactor)) / pi)\<rparr>"

subsection \<open>The framer in the words of the specification\<close>

text \<open>
  The end of a cycle in the words of the specification: exactly \<open>StftStep\<close> samples of the
  accumulator, from the cursor on, replace those of the ring buffer, and exactly
  these accumulator slots become zero.
\<close>

definition spec_cycle_end :: "PshifterState \<Rightarrow> PshifterState" where
  "spec_cycle_end st =
     st\<lparr>mFIFO := take (mPos st) (mFIFO st)
                 @ take StftStep (drop (mPos st) (mOutputAccum st))
                 @ drop (mPos st + StftStep) (mFIFO st),
        mOutputAccum := take (mPos st) (mOutputAccum st)
                        @ replicate StftStep 0
                        @ drop (mPos st + StftStep) (mOutputAccum st)\<rparr>"

text \<open>
  The framer in the words of the specification, for the input sample \<open>x\<close> with index \<open>i\<close>: emit
  the ring buffer's content at cursor plus counter, overwrite it with the sample,
  increment the counter; when it reaches \<open>StftStep\<close>, reset it, advance the cursor by
  \<open>StftStep\<close> modulo \<open>StftSize\<close> and run one cycle, which ends as above.
\<close>

definition spec_sample :: "'m externals \<Rightarrow> real \<Rightarrow> nat \<Rightarrow> PshifterState \<Rightarrow> PshifterState option" where
  "spec_sample E x i st =
     (let p = mPos st + mCount st;
          st = st\<lparr>mBufferOut := (mBufferOut st)[i := mFIFO st ! p]\<rparr>;
          st = st\<lparr>mFIFO := (mFIFO st)[p := x]\<rparr>;
          st = st\<lparr>mCount := mCount st + 1\<rparr>
      in if mCount st = StftStep
         then map_option spec_cycle_end
                (hop_spectral E (st\<lparr>mCount := 0, mPos := (mPos st + StftStep) mod StftSize\<rparr>))
         else Some st)"

fun spec_samples ::
  "'m externals \<Rightarrow> real list \<Rightarrow> nat list \<Rightarrow> PshifterState \<Rightarrow> PshifterState option"
where
  "spec_samples E inp [] st = Some st"
| "spec_samples E inp (i # is) st =
     (case spec_sample E (inp ! i) i st of
        None \<Rightarrow> None
      | Some st' \<Rightarrow> spec_samples E inp is st')"

text \<open>The framer invariant and the two array sizes the framer relies on.\<close>

definition framer_wf :: "PshifterState \<Rightarrow> bool" where
  "framer_wf st \<longleftrightarrow>
     framer_inv st \<and> length (mFIFO st) = StftSize \<and> length (mOutputAccum st) = StftSize"

subsection \<open>The merge of the bin remapper, and an analysis buffer with three peaks\<close>

text \<open>What one analysis bin \<open>a\<close> does to its destination bin \<open>b\<close>.\<close>

definition merge_bin :: "real \<Rightarrow> FrequencyBin \<Rightarrow> FrequencyBin \<Rightarrow> FrequencyBin" where
  "merge_bin ps a b =
     \<lparr>Magnitude = Magnitude b + Magnitude a,
      FreqBin = (if Magnitude a > Magnitude b then FreqBin a * ps else FreqBin b)\<rparr>"

definition example_analysis :: "FrequencyBin list" where
  "example_analysis =
     (replicate 513 FrequencyBin0)
       [2 := \<lparr>Magnitude = 3, FreqBin = 2\<rparr>,
        3 := \<lparr>Magnitude = 2, FreqBin = 3\<rparr>,
        4 := \<lparr>Magnitude = 4, FreqBin = 4\<rparr>]"

section \<open>Properties\<close>

subsection \<open>Frames of the steps of a cycle, and termination of the loop\<close>

lemma fold_frame:
  assumes "\<And>k s. g (f k s) = g s"
  shows "g (fold f ks s) = g s"
  by (induction ks arbitrary: s) (simp_all add: assms)

lemma analyze_bin_frame [simp]:
  "mCount (analyze_bin k st) = mCount st"
  "mPos (analyze_bin k st) = mPos st"
  "mPitchShiftI (analyze_bin k st) = mPitchShiftI st"
  "mPitchShift (analyze_bin k st) = mPitchShift st"
  "mFIFO (analyze_bin k st) = mFIFO st"
  "mSumPhase (analyze_bin k st) = mSumPhase st"
  "mOutputAccum (analyze_bin k st) = mOutputAccum st"
  "mFftBuffer (analyze_bin k st) = mFftBuffer st"
  "mSynthesisBuffer (analyze_bin k st) = mSynthesisBuffer st"
  "mBufferOut (analyze_bin k st) = mBufferOut st"
  "mCurrentGains (analyze_bin k st) = mCurrentGains st"
  "mTargetGains (analyze_bin k st) = mTargetGains st"
  "mOutTarget (analyze_bin k st) = mOutTarget st"
  by (simp_all add: analyze_bin_def Let_def)

lemma analyze_frame [simp]:
  "mCount (analyze st) = mCount st"
  "mPos (analyze st) = mPos st"
  "mPitchShiftI (analyze st) = mPitchShiftI st"
  "mPitchShift (analyze st) = mPitchShift st"
  "mFIFO (analyze st) = mFIFO st"
  "mSumPhase (analyze st) = mSumPhase st"
  "mOutputAccum (analyze st) = mOutputAccum st"
  "mFftBuffer (analyze st) = mFftBuffer st"
  "mSynthesisBuffer (analyze st) = mSynthesisBuffer st"
  "mBufferOut (analyze st) = mBufferOut st"
  "mCurrentGains (analyze st) = mCurrentGains st"
  "mTargetGains (analyze st) = mTargetGains st"
  "mOutTarget (analyze st) = mOutTarget st"
  unfolding analyze_def by (rule fold_frame, simp)+

lemma window_input_frame [simp]:
  "mCount (window_input st) = mCount st"
  "mPos (window_input st) = mPos st"
  "mPitchShiftI (window_input st) = mPitchShiftI st"
  "mPitchShift (window_input st) = mPitchShift st"
  "mFIFO (window_input st) = mFIFO st"
  "mLastPhase (window_input st) = mLastPhase st"
  "mSumPhase (window_input st) = mSumPhase st"
  "mOutputAccum (window_input st) = mOutputAccum st"
  "mAnalysisBuffer (window_input st) = mAnalysisBuffer st"
  "mSynthesisBuffer (window_input st) = mSynthesisBuffer st"
  "mBufferOut (window_input st) = mBufferOut st"
  "mCurrentGains (window_input st) = mCurrentGains st"
  "mTargetGains (window_input st) = mTargetGains st"
  "mOutTarget (window_input st) = mOutTarget st"
  by (simp_all add: window_input_def Let_def)

lemma remap_frame:
  assumes "remap E st = Some st'"
  shows "mCount st' = mCount st"
    "mPos st' = mPos st"
    "mPitchShiftI st' = mPitchShiftI st"
    "mPitchShift st' = mPitchShift st"
    "mFIFO st' = mFIFO st"
    "mLastPhase st' = mLastPhase st"
    "mSumPhase st' = mSumPhase st"
    "mOutputAccum st' = mOutputAccum st"
    "mFftBuffer st' = mFftBuffer st"
    "mAnalysisBuffer st' = mAnalysisBuffer st"
    "mBufferOut st' = mBufferOut st"
    "mCurrentGains st' = mCurrentGains st"
    "mTargetGains st' = mTargetGains st"
    "mOutTarget st' = mOutTarget st"
  using assms by (auto simp: remap_def Let_def split: option.splits)

lemma synthesize_bin_frame [simp]:
  "mCount (synthesize_bin k st) = mCount st"
  "mPos (synthesize_bin k st) = mPos st"
  "mPitchShiftI (synthesize_bin k st) = mPitchShiftI st"
  "mPitchShift (synthesize_bin k st) = mPitchShift st"
  "mFIFO (synthesize_bin k st) = mFIFO st"
  "mLastPhase (synthesize_bin k st) = mLastPhase st"
  "mOutputAccum (synthesize_bin k st) = mOutputAccum st"
  "mAnalysisBuffer (synthesize_bin k st) = mAnalysisBuffer st"
  "mSynthesisBuffer (synthesize_bin k st) = mSynthesisBuffer st"
  "mBufferOut (synthesize_bin k st) = mBufferOut st"
  "mCurrentGains (synthesize_bin k st) = mCurrentGains st"
  "mTargetGains (synthesize_bin k st) = mTargetGains st"
  "mOutTarget (synthesize_bin k st) = mOutTarget st"
  by (simp_all add: synthesize_bin_def Let_def)

lemma synthesize_frame [simp]:
  "mCount (synthesize st) = mCount st"
  "mPos (synthesize st) = mPos st"
  "mPitchShiftI (synthesize st) = mPitchShiftI st"
  "mPitchShift (synthesize st) = mPitchShift st"
  "mFIFO (synthesize st) = mFIFO st"
  "mLastPhase (synthesize st) = mLastPhase st"
  "mOutputAccum (synthesize st) = mOutputAccum st"
  "mAnalysisBuffer (synthesize st) = mAnalysisBuffer st"
  "mSynthesisBuffer (synthesize st) = mSynthesisBuffer st"
  "mBufferOut (synthesize st) = mBufferOut st"
  "mCurrentGains (synthesize st) = mCurrentGains st"
  "mTargetGains (synthesize st) = mTargetGains st"
  "mOutTarget (synthesize st) = mOutTarget st"
  unfolding synthesize_def Let_def by (simp, rule fold_frame, simp)+

lemma overlap_add_frame [simp]:
  "mCount (overlap_add st) = mCount st"
  "mPos (overlap_add st) = mPos st"
  "mPitchShiftI (overlap_add st) = mPitchShiftI st"
  "mPitchShift (overlap_add st) = mPitchShift st"
  "mFIFO (overlap_add st) = mFIFO st"
  "mLastPhase (overlap_add st) = mLastPhase st"
  "mSumPhase (overlap_add st) = mSumPhase st"
  "mFftBuffer (overlap_add st) = mFftBuffer st"
  "mAnalysisBuffer (overlap_add st) = mAnalysisBuffer st"
  "mSynthesisBuffer (overlap_add st) = mSynthesisBuffer st"
  "mBufferOut (overlap_add st) = mBufferOut st"
  "mCurrentGains (overlap_add st) = mCurrentGains st"
  "mTargetGains (overlap_add st) = mTargetGains st"
  "mOutTarget (overlap_add st) = mOutTarget st"
  by (simp_all add: overlap_add_def Let_def)

lemma hop_spectral_frame:
  assumes "hop_spectral E st = Some st'"
  shows "mCount st' = mCount st"
    "mPos st' = mPos st"
    "mPitchShiftI st' = mPitchShiftI st"
    "mPitchShift st' = mPitchShift st"
    "mFIFO st' = mFIFO st"
    "mBufferOut st' = mBufferOut st"
    "mCurrentGains st' = mCurrentGains st"
    "mTargetGains st' = mTargetGains st"
    "mOutTarget st' = mOutTarget st"
  using assms by (auto simp: hop_spectral_def Let_def remap_frame split: option.splits)

lemma copy_out_frame [simp]:
  "mCount (copy_out st) = mCount st"
  "mPos (copy_out st) = mPos st"
  "mPitchShiftI (copy_out st) = mPitchShiftI st"
  "mPitchShift (copy_out st) = mPitchShift st"
  "mLastPhase (copy_out st) = mLastPhase st"
  "mSumPhase (copy_out st) = mSumPhase st"
  "mFftBuffer (copy_out st) = mFftBuffer st"
  "mAnalysisBuffer (copy_out st) = mAnalysisBuffer st"
  "mSynthesisBuffer (copy_out st) = mSynthesisBuffer st"
  "mBufferOut (copy_out st) = mBufferOut st"
  "mCurrentGains (copy_out st) = mCurrentGains st"
  "mTargetGains (copy_out st) = mTargetGains st"
  "mOutTarget (copy_out st) = mOutTarget st"
  by (simp_all add: copy_out_def Let_def)

lemma hop_frame:
  assumes "hop E st = Some st'"
  shows "mCount st' = mCount st"
    "mPos st' = mPos st"
    "mPitchShiftI st' = mPitchShiftI st"
    "mPitchShift st' = mPitchShift st"
    "mBufferOut st' = mBufferOut st"
    "mCurrentGains st' = mCurrentGains st"
    "mTargetGains st' = mTargetGains st"
    "mOutTarget st' = mOutTarget st"
  using assms by (auto simp: hop_def hop_spectral_frame)

lemma framer_chunk_frame [simp]:
  "mCount (framer_chunk inp base todo st) = mCount st + todo"
  "mPos (framer_chunk inp base todo st) = mPos st"
  "mPitchShiftI (framer_chunk inp base todo st) = mPitchShiftI st"
  "mPitchShift (framer_chunk inp base todo st) = mPitchShift st"
  "mLastPhase (framer_chunk inp base todo st) = mLastPhase st"
  "mSumPhase (framer_chunk inp base todo st) = mSumPhase st"
  "mOutputAccum (framer_chunk inp base todo st) = mOutputAccum st"
  "mFftBuffer (framer_chunk inp base todo st) = mFftBuffer st"
  "mAnalysisBuffer (framer_chunk inp base todo st) = mAnalysisBuffer st"
  "mSynthesisBuffer (framer_chunk inp base todo st) = mSynthesisBuffer st"
  "mCurrentGains (framer_chunk inp base todo st) = mCurrentGains st"
  "mTargetGains (framer_chunk inp base todo st) = mTargetGains st"
  "mOutTarget (framer_chunk inp base todo st) = mOutTarget st"
  by (simp_all add: framer_chunk_def Let_def)

lemma todo_positive:
  assumes "base < n" "c < StftStep"
  shows "0 < minz (size_t_sub StftStep c) (n - base)"
    and "minz (size_t_sub StftStep c) (n - base) \<le> n - base"
    and "c + minz (size_t_sub StftStep c) (n - base) \<le> StftStep"
  using assms by (auto simp: minz_def size_t_sub_def)

lemma todo_le: "minz a (m::nat) \<le> m"
  by (auto simp: minz_def)

lemma todo_zero_count:
  assumes "base < n" "minz (size_t_sub StftStep c) (n - base) = 0"
  shows "StftStep \<le> c"
  using assms todo_positive(1)[of base n c] by (cases "c < StftStep") auto

termination process_loop
proof (relation "measures [\<lambda>(E, n, inp, base, st). n - base,
                           \<lambda>(E, n, inp, base, st). if mCount st < StftStep then 0 else 1]")
  show "wf (measures [\<lambda>(E, n, inp, base, st). n - base,
                      \<lambda>(E, n, inp, base, st). if mCount st < StftStep then 0 else (1::nat)])"
    by simp
next
  fix E :: "'m externals" and samplesToDo inp base st todo sta basea stb stc std
  assume a: "base < samplesToDo"
    and todo: "todo = minz (size_t_sub StftStep (mCount st)) (samplesToDo - base)"
    and sta: "sta = framer_chunk inp base todo st"
    and basea: "basea = base + todo"
    and ge: "\<not> mCount sta < StftStep"
    and stb: "stb = sta\<lparr>mCount := 0\<rparr>"
    and stc: "stc = stb\<lparr>mPos := (mPos stb + StftStep) AND (StftSize - 1)\<rparr>"
    and hop: "hop E stc = Some std"
  have c0: "mCount std = 0" using hop_frame(1)[OF hop] by (simp add: stc stb)
  have step: "0 < StftStep" by (simp add: StftStep_def StftSize_def OversampleFactor_def)
  have le: "todo \<le> samplesToDo - base" unfolding todo by (rule todo_le)
  show "((E, samplesToDo, inp, basea, std), (E, samplesToDo, inp, base, st))
        \<in> measures [\<lambda>(E, n, inp, base, st). n - base,
                      \<lambda>(E, n, inp, base, st). if mCount st < StftStep then 0 else 1]"
  proof (cases "todo = 0")
    case True
    hence "StftStep \<le> mCount st" using todo_zero_count[OF a] todo by simp
    thus ?thesis using True c0 step by (simp add: basea)
  next
    case False
    hence "samplesToDo - (base + todo) < samplesToDo - base" using a le by arith
    thus ?thesis by (simp add: basea)
  qed
qed

declare process_loop.simps [simp del]

subsection \<open>The index arithmetic on natural numbers\<close>

lemma unat_ucast32: "unat (ucast (ps::uint) :: size_t) = unat ps"
  by (simp add: unsigned_ucast_eq take_bit_nat_eq_self_iff) (rule less_trans[OF unsigned_less], simp)

lemma unat_of_nat64: "n < 2 ^ 64 \<Longrightarrow> unat (word_of_nat n :: size_t) = n"
  by (simp add: unat_of_nat)

lemma pow_le_30: "fb \<le> 30 \<Longrightarrow> (2::nat) ^ fb \<le> 2 ^ 30"
  by (rule power_increasing) simp_all

lemma MixerFracOne_nat: "MixerFracOne fb = word_of_nat (2 ^ fb)"
  by (simp add: MixerFracOne_def push_bit_eq_mult)

lemma unat_MixerFracOne: "fb \<le> 30 \<Longrightarrow> unat (MixerFracOne fb) = 2 ^ fb"
  using pow_le_30[of fb] by (simp add: MixerFracOne_nat unat_of_nat64 del: of_nat_power)

lemma unat_MixerFracHalf:
  assumes "fb \<le> 30"
  shows "unat (MixerFracHalf fb) = 2 ^ fb div 2"
proof -
  have "unat (drop_bit 1 (MixerFracOne fb)) = drop_bit 1 (unat (MixerFracOne fb))"
    by (rule unat_drop_bit_eq)
  also have "\<dots> = 2 ^ fb div 2"
    by (simp only: unat_MixerFracOne[OF assms] drop_bit_eq_div power_one_right)
  finally show ?thesis by (simp only: MixerFracHalf_def)
qed

lemma unat_push_513:
  assumes "fb \<le> 30"
  shows "unat (push_bit fb (word_of_nat (StftHalfSize + 1)) :: size_t) = 513 * 2 ^ fb"
proof -
  have "(513::nat) * 2 ^ fb \<le> 513 * 2 ^ 30" using pow_le_30[OF assms] by simp
  hence lt: "(513::nat) * 2 ^ fb < 2 ^ 64" by simp
  have "(push_bit fb (word_of_nat (StftHalfSize + 1)) :: size_t) = word_of_nat (513 * 2 ^ fb)"
    by (simp add: push_bit_eq_mult StftHalfSize_def StftSize_def)
  thus ?thesis using lt by (simp only: unat_of_nat64)
qed

lemma unat_bin_limit:
  assumes "fb \<le> 30"
  shows "unat (bin_limit fb) = 513 * 2 ^ fb - 2 ^ fb div 2 - 1"
proof -
  let ?a = "push_bit fb (word_of_nat (StftHalfSize + 1)) :: size_t"
  have h: "(2::nat) ^ fb div 2 < 2 ^ fb" by simp
  have a: "unat (MixerFracHalf fb) \<le> unat ?a"
    using h by (simp only: unat_MixerFracHalf[OF assms] unat_push_513[OF assms])
  have b: "unat (?a - MixerFracHalf fb) = 513 * 2 ^ fb - 2 ^ fb div 2"
    using a by (simp only: unat_sub word_le_nat_alt unat_MixerFracHalf[OF assms] unat_push_513[OF assms])
  have c: "513 * 2 ^ fb - 2 ^ fb div 2 \<noteq> (0::nat)" using h by linarith
  have d: "?a - MixerFracHalf fb \<noteq> 0"
  proof
    assume z: "?a - MixerFracHalf fb = 0"
    have "unat (?a - MixerFracHalf fb) = 0" by (simp only: z unat_0)
    hence e: "513 * 2 ^ fb - 2 ^ fb div 2 = (0::nat)" by (simp only: b)
    show False by (rule notE[OF c e])
  qed
  show ?thesis unfolding bin_limit_def by (simp only: unat_minus_one[OF d] b)
qed

lemma unat_minz: "unat (minz a b) = min (unat a) (unat b)"
  by (simp add: minz_def word_less_nat_alt min_def)

lemma bin_count_None: "bin_count fb ps = None \<longleftrightarrow> ps = 0"
  by (simp add: bin_count_def)

lemma unat_bin_count:
  assumes "fb \<le> 30" "bin_count fb ps = Some bc"
  shows "unat bc = min 513 ((513 * 2 ^ fb - 2 ^ fb div 2 - 1) div unat ps + 1)"
proof -
  have ps: "ps \<noteq> 0" using assms(2) by (auto simp: bin_count_def split: if_splits)
  have bc: "bc = minz (word_of_nat (StftHalfSize + 1)) (bin_limit fb div ucast ps + 1)"
    using assms(2) ps by (simp add: bin_count_def)
  have q: "unat (bin_limit fb div ucast ps) = (513 * 2 ^ fb - 2 ^ fb div 2 - 1) div unat ps"
    by (simp only: unat_div unat_bin_limit[OF assms(1)] unat_ucast32)
  have "(513 * 2 ^ fb - 2 ^ fb div 2 - 1) div unat ps \<le> (513::nat) * 2 ^ fb"
    by (rule order_trans[OF div_le_dividend]) simp
  also have "\<dots> \<le> 513 * 2 ^ 30" using pow_le_30[OF assms(1)] by simp
  finally have "unat (bin_limit fb div ucast ps) + unat (1::size_t) < 2 ^ LENGTH(64)"
    by (simp only: q) simp
  hence "unat (bin_limit fb div ucast ps + 1) = unat (bin_limit fb div ucast ps) + unat (1::size_t)"
    by (rule unat_add_lem[THEN iffD1])
  hence "unat (bin_limit fb div ucast ps + 1) = (513 * 2 ^ fb - 2 ^ fb div 2 - 1) div unat ps + 1"
    by (simp only: q unat_1)
  moreover have "unat (word_of_nat (StftHalfSize + 1) :: size_t) = 513"
    by (simp add: StftHalfSize_def StftSize_def)
  ultimately show ?thesis by (simp only: bc unat_minz)
qed

lemma scan_product_bound:
  fixes k p :: nat
  assumes "k < min 513 ((513 * 2 ^ fb - 2 ^ fb div 2 - 1) div p + 1)" "p \<noteq> 0"
  shows "k * p + 2 ^ fb div 2 < 513 * 2 ^ fb"
proof -
  have h: "(2::nat) ^ fb div 2 < 2 ^ fb" by simp
  from assms(1) have "k \<le> (513 * 2 ^ fb - 2 ^ fb div 2 - 1) div p" by simp
  hence "k * p \<le> (513 * 2 ^ fb - 2 ^ fb div 2 - 1) div p * p" by (rule mult_le_mono1)
  also have "\<dots> \<le> 513 * 2 ^ fb - 2 ^ fb div 2 - 1" by (simp add: div_times_less_eq_dividend)
  finally show ?thesis using h by linarith
qed

lemma unat_bin_dest:
  assumes fb: "fb \<le> 30" and bc: "bin_count fb ps = Some bc" and k: "k < bc"
  shows "unat (bin_dest fb ps k) = (unat k * unat ps + 2 ^ fb div 2) div 2 ^ fb"
    and "unat k * unat ps + 2 ^ fb div 2 < 513 * 2 ^ fb"
proof -
  have ps: "unat ps \<noteq> 0" using bc by (auto simp: bin_count_def unat_eq_0 split: if_splits)
  have "unat k < unat bc" using k by (simp only: word_less_nat_alt)
  hence kb: "unat k < min 513 ((513 * 2 ^ fb - 2 ^ fb div 2 - 1) div unat ps + 1)"
    by (simp only: unat_bin_count[OF fb bc])
  show b: "unat k * unat ps + 2 ^ fb div 2 < 513 * 2 ^ fb"
    by (rule scan_product_bound[OF kb ps])
  have "(513::nat) * 2 ^ fb \<le> 513 * 2 ^ 30" using pow_le_30[OF fb] by simp
  hence lt: "(513::nat) * 2 ^ fb < 2 ^ LENGTH(64)" by simp
  have "unat k * unat (ucast ps :: size_t) < 2 ^ LENGTH(64)"
    using b lt unfolding unat_ucast32 by linarith
  hence m: "unat (k * ucast ps) = unat k * unat ps"
    by (simp only: unat_mult_lem[THEN iffD1] unat_ucast32)
  have "unat (k * ucast ps) + unat (MixerFracHalf fb) < 2 ^ LENGTH(64)"
    using b lt unfolding m unat_MixerFracHalf[OF fb] by linarith
  hence a: "unat (k * ucast ps + MixerFracHalf fb) = unat k * unat ps + 2 ^ fb div 2"
    by (simp only: unat_add_lem[THEN iffD1] m unat_MixerFracHalf[OF fb])
  have "unat (drop_bit fb (k * ucast ps + MixerFracHalf fb))
      = drop_bit fb (unat (k * ucast ps + MixerFracHalf fb))"
    by (rule unat_drop_bit_eq)
  also have "\<dots> = (unat k * unat ps + 2 ^ fb div 2) div 2 ^ fb"
    by (simp only: a drop_bit_eq_div)
  finally show "unat (bin_dest fb ps k) = (unat k * unat ps + 2 ^ fb div 2) div 2 ^ fb"
    by (simp only: bin_dest_def)
qed

lemma bin_dest_le_half:
  assumes "fb \<le> 30" "bin_count fb ps = Some bc" "k < bc"
  shows "unat (bin_dest fb ps k) \<le> StftHalfSize"
proof -
  have "(unat k * unat ps + 2 ^ fb div 2) div 2 ^ fb < 513"
    using unat_bin_dest(2)[OF assms] by (simp add: div_less_iff_less_mult)
  thus ?thesis by (simp add: unat_bin_dest(1)[OF assms] StftHalfSize_def StftSize_def)
qed


subsection \<open>C1: the destination index of the bin remapper\<close>

lemma scanned_bin_less:
  assumes "k < unat (bc::size_t)"
  shows "word_of_nat k < bc" and "unat (word_of_nat k :: size_t) = k"
proof -
  have "unat bc < 2 ^ 64" using unsigned_less[of bc] by simp
  hence k: "k < 2 ^ 64" using assms by simp
  show u: "unat (word_of_nat k :: size_t) = k" by (rule unat_of_nat64[OF k])
  show "word_of_nat k < bc" using assms by (simp only: word_less_nat_alt u)
qed

lemma bin_count_quarter: "bin_count 16 16384 = Some 513"
  by (simp add: bin_count_def bin_limit_def MixerFracHalf_def MixerFracOne_def minz_def
        StftHalfSize_def StftSize_def)

lemma bin_dest_quarter:
  assumes "k < 513"
  shows "unat (bin_dest 16 16384 (word_of_nat k)) = (k * 16384 + 32768) div 65536"
proof -
  have k: "k < unat (513 :: size_t)" using assms by simp
  have "unat (bin_dest 16 16384 (word_of_nat k))
      = (unat (word_of_nat k :: size_t) * unat (16384 :: uint) + 2 ^ 16 div 2) div 2 ^ 16"
    by (rule unat_bin_dest(1)[OF _ bin_count_quarter scanned_bin_less(1)[OF k]]) simp
  thus ?thesis by (simp add: scanned_bin_less(2)[OF k])
qed

text \<open>
  C1. Whatever the fixed-point pitch shift \<open>ps\<close>, either the division in \<^verbatim>\<open>bin_count\<close>
  has no result, which happens for \<open>ps = 0\<close> only, or the scan range \<open>bin_count\<close>
  exists and every analysis bin \<open>k\<close> of the scan is itself at most \<open>StftHalfSize\<close> and
  has a destination index \<open>j\<close> at most \<open>StftHalfSize\<close>: both arrays of
  \<open>StftHalfSize + 1\<close> bins are accessed in bounds. The index is the one the code
  computes on \<^verbatim>\<open>size_t\<close>, with its wrap-around.
\<close>

theorem remap_destination_in_bounds:
  assumes "fb \<le> 30"
  shows "case bin_count fb ps of
           None \<Rightarrow> ps = 0
         | Some bc \<Rightarrow> (\<forall>k < unat bc. k \<le> StftHalfSize \<and>
                          unat (bin_dest fb ps (word_of_nat k)) \<le> StftHalfSize)"
proof (cases "bin_count fb ps")
  case None
  hence "ps = 0" by (simp only: bin_count_None)
  thus ?thesis using None by simp
next
  case (Some bc)
  have "k \<le> StftHalfSize \<and> unat (bin_dest fb ps (word_of_nat k)) \<le> StftHalfSize"
    if k: "k < unat bc" for k
  proof
    have "k < 513" using k unat_bin_count[OF assms Some] by simp
    thus "k \<le> StftHalfSize" by (simp add: StftHalfSize_def StftSize_def)
    show "unat (bin_dest fb ps (word_of_nat k)) \<le> StftHalfSize"
      by (rule bin_dest_le_half[OF assms Some scanned_bin_less(1)[OF k]])
  qed
  thus ?thesis using Some by simp
qed

theorem remap_destination_in_bounds_witness:
  "(16::nat) \<le> 30 \<and> bin_count 16 16384 = Some 513 \<and> (512::nat) < unat (513::size_t) \<and>
   unat (bin_dest 16 16384 (word_of_nat 512)) = 128 \<and> 128 \<le> StftHalfSize"
proof -
  have "\<forall>k < unat (513::size_t). k \<le> StftHalfSize \<and>
          unat (bin_dest 16 16384 (word_of_nat k)) \<le> StftHalfSize"
    using remap_destination_in_bounds[of 16 16384] by (simp add: bin_count_quarter)
  hence a: "unat (bin_dest 16 16384 (word_of_nat 512)) \<le> StftHalfSize"
    by (rule allE[where x = 512]) simp
  have b: "unat (bin_dest 16 16384 (word_of_nat 512)) = 128"
    using bin_dest_quarter[of 512] by simp
  have "(128::nat) \<le> StftHalfSize" using a by (simp only: b)
  thus ?thesis using b by (simp add: bin_count_quarter)
qed



lemma fill_replicate: "fill xs v = replicate (length xs) v"
  by (simp add: fill_def map_replicate_const)

subsection \<open>C7: deviceUpdate\<close>

text \<open>
  C7. After \<^verbatim>\<open>deviceUpdate\<close>, from any state, the FIFO, both phase arrays, the output
  accumulator, the spectral buffer and both bin arrays hold zeros only (at the
  length they had), the hop counter is 0, the cursor is \<open>StftSize - StftStep\<close>, the
  pitch ratio is 1 with the fixed-point value \<^verbatim>\<open>MixerFracOne\<close>, and all current and
  target gains are 0.
\<close>

theorem deviceUpdate_resets:
  "mFIFO (deviceUpdate E st) = replicate (length (mFIFO st)) 0 \<and>
   mLastPhase (deviceUpdate E st) = replicate (length (mLastPhase st)) 0 \<and>
   mSumPhase (deviceUpdate E st) = replicate (length (mSumPhase st)) 0 \<and>
   mOutputAccum (deviceUpdate E st) = replicate (length (mOutputAccum st)) 0 \<and>
   mFftBuffer (deviceUpdate E st) = replicate (length (mFftBuffer st)) 0 \<and>
   mAnalysisBuffer (deviceUpdate E st)
     = replicate (length (mAnalysisBuffer st)) \<lparr>Magnitude = 0, FreqBin = 0\<rparr> \<and>
   mSynthesisBuffer (deviceUpdate E st)
     = replicate (length (mSynthesisBuffer st)) \<lparr>Magnitude = 0, FreqBin = 0\<rparr> \<and>
   mCount (deviceUpdate E st) = 0 \<and>
   mPos (deviceUpdate E st) = StftSize - StftStep \<and>
   mPitchShift (deviceUpdate E st) = 1 \<and>
   mPitchShiftI (deviceUpdate E st) = ucast (MixerFracOne (MixerFracBits E)) \<and>
   mCurrentGains (deviceUpdate E st) = replicate (length (mCurrentGains st)) 0 \<and>
   mTargetGains (deviceUpdate E st) = replicate (length (mTargetGains st)) 0"
  by (simp add: deviceUpdate_def fill_replicate FrequencyBin0_def)

lemma unat_ucast_One: 
  assumes "fb \<le> 30" shows "unat (ucast (MixerFracOne fb) :: uint) = 2 ^ fb"
proof -
  have "fb < 32" using assms by simp
  thus ?thesis
    by (simp add: unsigned_ucast_eq unat_MixerFracOne[OF assms] take_bit_nat_eq_self_iff)
qed

subsection \<open>C6: what update writes\<close>

text \<open>
  C6. \<^verbatim>\<open>update\<close> writes the two pitch fields, the output target and the target gains,
  and nothing else: the result is the old state with new values in these four
  fields. The FIFO, the spectral buffer, both phase arrays, the output accumulator,
  both bin arrays, the cursor, the hop counter, the current gains and the mono
  working buffer are the old ones, for every state and all parameters.
\<close>

theorem update_frame:
  "(\<exists>psI ps tgt gains. update E slot props target st
       = st\<lparr>mPitchShiftI := psI, mPitchShift := ps, mOutTarget := tgt, mTargetGains := gains\<rparr>) \<and>
   mFIFO (update E slot props target st) = mFIFO st \<and>
   mFftBuffer (update E slot props target st) = mFftBuffer st \<and>
   mLastPhase (update E slot props target st) = mLastPhase st \<and>
   mSumPhase (update E slot props target st) = mSumPhase st \<and>
   mOutputAccum (update E slot props target st) = mOutputAccum st \<and>
   mAnalysisBuffer (update E slot props target st) = mAnalysisBuffer st \<and>
   mSynthesisBuffer (update E slot props target st) = mSynthesisBuffer st \<and>
   mPos (update E slot props target st) = mPos st \<and>
   mCount (update E slot props target st) = mCount st \<and>
   mCurrentGains (update E slot props target st) = mCurrentGains st \<and>
   mBufferOut (update E slot props target st) = mBufferOut st"
proof (intro conjI)
  show "\<exists>psI ps tgt gains. update E slot props target st
       = st\<lparr>mPitchShiftI := psI, mPitchShift := ps, mOutTarget := tgt, mTargetGains := gains\<rparr>"
    unfolding update_def Let_def by (simp del: ex_simps) blast
qed (simp_all add: update_def Let_def)


subsection \<open>Rounded arithmetic: the error, the exact cases, and evaluation\<close>

lemma round_even_error: "\<bar>of_int (round_even y) - y\<bar> \<le> 1 / 2"
  unfolding round_even_def Let_def by (simp; linarith)

lemma round_even_of_int: "round_even (of_int n) = n"
  by (simp add: round_even_def)

lemma floor_log2_eq:
  assumes "2 powr of_int e \<le> x" "x < 2 powr (of_int e + 1)"
  shows "\<lfloor>log 2 x\<rfloor> = e"
proof -
  have pos: "0 < x" using assms(1) by (rule less_le_trans[rotated]) simp
  have "of_int e \<le> log 2 x" using assms(1) pos by (simp add: le_log_iff)
  moreover have "log 2 x < of_int e + 1" using assms(2) pos by (simp add: log_less_iff)
  ultimately show ?thesis by linarith
qed

lemma rnd_eval:
  assumes "2 powr of_int e \<le> \<bar>x\<bar>" "\<bar>x\<bar> < 2 powr (of_int e + 1)"
  shows "rnd p x = of_int (round_even (x / 2 powr (of_int e - real p + 1)))
                     * 2 powr (of_int e - real p + 1)"
proof -
  have "0 < \<bar>x\<bar>" using assms(1) by (rule less_le_trans[rotated]) simp
  hence "x \<noteq> 0" by simp
  thus ?thesis by (simp add: rnd_def Let_def floor_log2_eq[OF assms])
qed

lemma rnd_0 [simp]: "rnd p 0 = 0"
  by (simp add: rnd_def)

lemma rnd_error: "\<bar>rnd p x - x\<bar> \<le> \<bar>x\<bar> / 2 ^ p"
proof (cases "x = 0")
  case True
  thus ?thesis by simp
next
  case False
  define e where "e = \<lfloor>log 2 \<bar>x\<bar>\<rfloor>"
  define U where "U = 2 powr (of_int e - real p + 1)"
  have U: "0 < U" by (simp add: U_def)
  have r: "rnd p x = of_int (round_even (x / U)) * U"
    using False by (simp add: rnd_def Let_def e_def U_def)
  have "rnd p x - x = (of_int (round_even (x / U)) - x / U) * U"
    using U by (simp add: r algebra_simps)
  hence "\<bar>rnd p x - x\<bar> = \<bar>of_int (round_even (x / U)) - x / U\<bar> * U"
    using U by (simp add: abs_mult)
  also have "\<dots> \<le> 1 / 2 * U"
    by (rule mult_right_mono[OF round_even_error]) (use U in simp)
  also have "1 / 2 * U = 2 powr of_int e / 2 ^ p"
    by (simp add: U_def powr_add powr_diff powr_realpow)
  also have "\<dots> \<le> \<bar>x\<bar> / 2 ^ p"
  proof (rule divide_right_mono)
    have "2 powr of_int e \<le> 2 powr log 2 \<bar>x\<bar>"
      unfolding e_def by (rule powr_mono) simp_all
    thus "2 powr of_int e \<le> \<bar>x\<bar>" using False by simp
  qed simp
  finally show ?thesis .
qed

lemma rnd_exact:
  assumes "\<bar>n\<bar> < 2 ^ p"
  shows "rnd p (of_int n * 2 powr of_int k) = of_int n * 2 powr of_int k"
proof (cases "n = 0")
  case True
  thus ?thesis by simp
next
  case False
  define x :: real where "x = of_int n * 2 powr of_int k"
  define j where "j = \<lfloor>log 2 (of_int \<bar>n\<bar>)\<rfloor>"
  have n1: "1 \<le> \<bar>n\<bar>" using False by simp
  hence npos: "0 < (of_int \<bar>n\<bar> :: real)" by simp
  have "(of_int \<bar>n\<bar> :: real) < of_int (2 ^ p)" using assms by (simp only: of_int_less_iff)
  hence "(of_int \<bar>n\<bar> :: real) < 2 ^ p" by simp
  hence "log 2 (of_int \<bar>n\<bar>) < real p" using npos by (simp add: log_less_iff powr_realpow)
  hence "j < int p" unfolding j_def by linarith
  hence jp: "j \<le> int p - 1" by simp
  have "0 \<le> log 2 (of_int \<bar>n\<bar>)" using n1 by simp
  hence j0: "0 \<le> j" unfolding j_def by simp
  have ax: "\<bar>x\<bar> = of_int \<bar>n\<bar> * 2 powr of_int k" by (simp add: x_def abs_mult)
  have "log 2 \<bar>x\<bar> = log 2 (of_int \<bar>n\<bar>) + of_int k"
    unfolding ax using npos by (simp add: log_mult)
  hence e: "\<lfloor>log 2 \<bar>x\<bar>\<rfloor> = j + k" unfolding j_def by simp
  define d where "d = nat (int p - 1 - j)"
  have d: "int d = int p - 1 - j" using jp by (simp add: d_def)
  define U where "U = 2 powr (of_int (j + k) - real p + 1)"
  have U: "0 < U" by (simp add: U_def)
  have "of_int (j + k) - real p + 1 = of_int k - real d"
    using d by simp
  hence "U = 2 powr (of_int k - real d)" by (simp only: U_def)
  hence "U = 2 powr of_int k / 2 ^ d" by (simp only: powr_diff powr_realpow zero_less_numeral)
  hence q: "x / U = of_int (n * 2 ^ d)" by (simp add: x_def)
  have x0: "x \<noteq> 0" using False by (simp add: x_def)
  have "rnd p x = of_int (round_even (x / U)) * U"
    using x0 by (simp add: rnd_def Let_def e U_def)
  also have "\<dots> = x / U * U" by (simp only: q round_even_of_int)
  also have "\<dots> = x" using U by simp
  finally show ?thesis by (simp only: x_def)
qed

lemma rnd_exact_int: "\<bar>n\<bar> < 2 ^ p \<Longrightarrow> rnd p (of_int n) = of_int n"
  using rnd_exact[of n p 0] by simp

lemma rnd_exact_nat: "n < 2 ^ p \<Longrightarrow> rnd p (real n) = real n"
  using rnd_exact_int[of "int n" p] by (simp add: of_nat_less_numeral_power_cancel_iff flip: of_nat_power)

lemma rnd_exact_div_pow2: "n < 2 ^ p \<Longrightarrow> rnd p (real n / 2 ^ k) = real n / 2 ^ k"
proof -
  assume "n < 2 ^ p"
  hence "\<bar>int n\<bar> < 2 ^ p" by (simp flip: of_nat_power)
  from rnd_exact[OF this, of "- int k"] show ?thesis
    by (simp add: powr_minus powr_realpow divide_inverse)
qed

lemma rnd_exact_int_div_pow2:
  assumes "\<bar>n\<bar> < 2 ^ p"
  shows "rnd p (of_int n / 2 ^ k) = of_int n / 2 ^ k"
  using rnd_exact[OF assms, of "- int k"]
  by (simp add: powr_minus powr_realpow divide_inverse)

lemma rnd_eval_frac:
  assumes "0 < p" "2 ^ (p - 1) \<le> \<bar>x\<bar> * 2 ^ k" "\<bar>x\<bar> * 2 ^ k < 2 ^ p"
  shows "rnd p x = of_int (round_even (x * 2 ^ k)) / 2 ^ k"
proof -
  define e where "e = int p - 1 - int k"
  have e1: "real_of_int e = real (p - 1) - real k" using assms(1) by (simp add: e_def)
  have e2: "real_of_int e + 1 = real p - real k" using assms(1) by (simp add: e_def)
  have p1: "2 powr real_of_int e = 2 ^ (p - 1) / 2 ^ k"
    by (simp only: e1 powr_diff powr_realpow zero_less_numeral)
  have p2: "2 powr (real_of_int e + 1) = 2 ^ p / 2 ^ k"
    by (simp only: e2 powr_diff powr_realpow zero_less_numeral)
  have a: "2 powr real_of_int e \<le> \<bar>x\<bar>"
    unfolding p1 using assms(2) by (simp add: divide_le_eq)
  have b: "\<bar>x\<bar> < 2 powr (real_of_int e + 1)"
    unfolding p2 using assms(3) by (simp add: less_divide_eq)
  have "real_of_int e - real p + 1 = - real k" using assms(1) by (simp add: e_def)
  hence u: "2 powr (real_of_int e - real p + 1) = 1 / 2 ^ k"
    by (simp add: powr_minus powr_realpow divide_inverse)
  show ?thesis by (simp add: rnd_eval[OF a b] u)
qed

lemma rnd_pow2:
  assumes "0 < p"
  shows "rnd p (2 ^ k) = 2 ^ k"
proof -
  have "\<bar>1::int\<bar> < 2 ^ p" using assms by simp
  from rnd_exact[OF this, of "int k"] show ?thesis by (simp add: powr_realpow)
qed

lemma rnd_abs_le: "\<bar>rnd p x\<bar> \<le> \<bar>x\<bar> + \<bar>x\<bar> / 2 ^ p"
  using rnd_error[of p x] by linarith

subsection \<open>Seventeen digits of \<open>pi\<close>, and the two constants of the code\<close>

text \<open>
  From Machin's formula and the alternating series of the arc tangent. The two doubles
  are within one part in \<open>2 ^ 53\<close> below \<open>pi\<close> and above its inverse.
\<close>

lemma arctan_enclosure:
  assumes "0 < x" "x \<le> 1"
  shows "arctan_sum x (2 * n) \<le> arctan x" "arctan x \<le> arctan_sum x (2 * n + 1)"
proof -
  have a: "\<bar>x\<bar> \<le> 1" using assms by simp
  have p: "0 < 1 / real (0 * 2 + 1) * x ^ (0 * 2 + 1)" using assms by simp
  from summable_Leibniz(2)[OF zeroseq_arctan_series[OF a] monoseq_arctan_series[OF a]] p
  have "(\<Sum>i. (- 1) ^ i * (1 / real (i * 2 + 1) * x ^ (i * 2 + 1)))
          \<in> {arctan_sum x (2 * n) .. arctan_sum x (2 * n + 1)}"
    unfolding arctan_sum_def by blast
  thus "arctan_sum x (2 * n) \<le> arctan x" "arctan x \<le> arctan_sum x (2 * n + 1)"
    by (simp_all add: arctan_series[OF a])
qed

lemma arctan_sum_Suc:
  "arctan_sum x (Suc n) = arctan_sum x n + (- 1) ^ n * (1 / real (n * 2 + 1) * x ^ (n * 2 + 1))"
  by (simp add: arctan_sum_def)

lemma arctan_sum_0: "arctan_sum x 0 = 0"
  by (simp add: arctan_sum_def)

lemma pi_upper: "pi < 31415926535897933 / 10 ^ 16"
proof -
  have a: "arctan (1 / 5) \<le> arctan_sum (1 / 5) (2 * 6 + 1)"
    by (rule arctan_enclosure(2)) simp_all
  have b: "arctan_sum (1 / 239) (2 * 2) \<le> arctan (1 / 239)"
    by (rule arctan_enclosure(1)) simp_all
  have "pi = 16 * arctan (1 / 5) - 4 * arctan (1 / 239)" using machin by simp
  also have "\<dots> \<le> 16 * arctan_sum (1 / 5) (2 * 6 + 1) - 4 * arctan_sum (1 / 239) (2 * 2)"
    using a b by linarith
  also have "\<dots> < 31415926535897933 / 10 ^ 16"
    by (simp add: eval_nat_numeral arctan_sum_Suc arctan_sum_0)
  finally show ?thesis .
qed

lemma pi_lower: "31415926535897932 / 10 ^ 16 < pi"
proof -
  have a: "arctan_sum (1 / 5) (2 * 6) \<le> arctan (1 / 5)"
    by (rule arctan_enclosure(1)) simp_all
  have b: "arctan (1 / 239) \<le> arctan_sum (1 / 239) (2 * 2 + 1)"
    by (rule arctan_enclosure(2)) simp_all
  have "31415926535897932 / 10 ^ 16 < 16 * arctan_sum (1 / 5) (2 * 6) - 4 * arctan_sum (1 / 239) (2 * 2 + 1)"
    by (simp add: eval_nat_numeral arctan_sum_Suc arctan_sum_0)
  also have "\<dots> \<le> 16 * arctan (1 / 5) - 4 * arctan (1 / 239)"
    using a b by linarith
  also have "\<dots> = pi" using machin by simp
  finally show ?thesis .
qed

lemma pi_d_le: "pi_d \<le> pi"
  using pi_lower by (simp add: pi_d_def)

lemma pi_d_ge: "pi - pi / 2 ^ 53 \<le> pi_d"
proof -
  have "pi - pi / 2 ^ 53 = pi * (1 - 1 / 2 ^ 53)" by (simp add: algebra_simps)
  also have "\<dots> \<le> 31415926535897933 / 10 ^ 16 * (1 - 1 / 2 ^ 53)"
    by (rule mult_right_mono) (use pi_upper in simp_all)
  also have "\<dots> \<le> pi_d" by (simp add: pi_d_def)
  finally show ?thesis .
qed

lemma inv_pi_d_pos: "0 < inv_pi_d"
  by (simp add: inv_pi_d_def)

lemma recip_inv_pi_d_le: "1 / inv_pi_d \<le> pi"
  using pi_lower by (simp add: inv_pi_d_def)

lemma recip_inv_pi_d_ge: "pi - pi / 2 ^ 53 \<le> 1 / inv_pi_d"
proof -
  have "pi - pi / 2 ^ 53 = pi * (1 - 1 / 2 ^ 53)" by (simp add: algebra_simps)
  also have "\<dots> \<le> 31415926535897933 / 10 ^ 16 * (1 - 1 / 2 ^ 53)"
    by (rule mult_right_mono) (use pi_upper in simp_all)
  also have "\<dots> \<le> 1 / inv_pi_d" by (simp add: inv_pi_d_def)
  finally show ?thesis .
qed

subsection \<open>Ten digits of the logarithm of 2, and the powers of 2\<close>









subsection \<open>C9: the pitch ratio\<close>


text \<open>The conversions of \<^verbatim>\<open>update\<close> are exact, and so is its product on \<^verbatim>\<open>double\<close>.\<close>

lemma to_float_One:
  assumes "fb \<le> 30"
  shows "to_float (real (unat (MixerFracOne fb))) = 2 ^ fb"
  by (simp add: to_float_def unat_MixerFracOne[OF assms] rnd_pow2)

lemma to_double_One:
  assumes "fb \<le> 30"
  shows "to_double (real (unat (MixerFracOne fb))) = 2 ^ fb"
  by (simp add: to_double_def unat_MixerFracOne[OF assms] rnd_pow2)

lemma to_double_uint: "to_double (real (unat (w::uint))) = real (unat w)"
proof -
  have "unat w < 2 ^ 32" using unsigned_less[of w] by simp
  hence "unat w < 2 ^ 53" by simp
  thus ?thesis unfolding to_double_def by (rule rnd_exact_nat)
qed

lemma pitch_double_exact:
  assumes "fb \<le> 30"
  shows "dmul (to_double (real (unat (w::uint)))) (ddiv 1 (to_double (real (unat (MixerFracOne fb)))))
           = real (unat w) / 2 ^ fb"
proof -
  have "unat w < 2 ^ 32" using unsigned_less[of w] by simp
  hence w: "unat w < 2 ^ 53" by simp
  have "ddiv 1 (2 ^ fb) = rnd 53 (real 1 / 2 ^ fb)" by (simp add: ddiv_def)
  also have "\<dots> = real 1 / 2 ^ fb" by (rule rnd_exact_div_pow2) simp
  finally have d: "ddiv 1 (2 ^ fb) = 1 / 2 ^ fb" by simp
  have "dmul (real (unat w)) (1 / 2 ^ fb) = rnd 53 (real (unat w) / 2 ^ fb)"
    by (simp add: dmul_def)
  also have "\<dots> = real (unat w) / 2 ^ fb" by (rule rnd_exact_div_pow2[OF w])
  finally show ?thesis by (simp only: to_double_uint to_double_One[OF assms] d)
qed

lemma update_pitch_fields:
  "mPitchShiftI (update E slot props target st)
     = fastf2u E (fmul (powf E 2 (fdiv (to_float (real_of_int
           (sint (CoarseTune (Pshifter props) * 100 + FineTune (Pshifter props))))) 1200))
         (to_float (real (unat (MixerFracOne (MixerFracBits E))))))"
  "mPitchShift (update E slot props target st)
     = dmul (to_double (real (unat (mPitchShiftI (update E slot props target st)))))
            (ddiv 1 (to_double (real (unat (MixerFracOne (MixerFracBits E))))))"
  by (simp_all add: update_def Let_def)

lemma update_pitch_exact:
  assumes "MixerFracBits E \<le> 30"
  shows "mPitchShift (update E slot props target st)
           = real (unat (mPitchShiftI (update E slot props target st))) / 2 ^ MixerFracBits E"
  by (simp only: update_pitch_fields(2) pitch_double_exact[OF assms])






text \<open>
  A coarse tuning beyond the range of \<^verbatim>\<open>int\<close>: for 21474837 the cents wrap around to a
  negative number, the power is below the resolution of the fixed-point format, and
  the stored integer is 0.
\<close>

lemma round_even_small:
  assumes "0 \<le> x" "x < 1 / 2"
  shows "round_even x = 0"
proof -
  have "\<lfloor>x\<rfloor> = 0" using assms by (intro floor_unique) simp_all
  thus ?thesis using assms by (simp add: round_even_def Let_def)
qed

lemma rnd_nonneg_le:
  assumes "0 \<le> x"
  shows "0 \<le> rnd p x" and "rnd p x \<le> 2 * x"
proof -
  have e: "\<bar>rnd p x - x\<bar> \<le> \<bar>x\<bar> / 2 ^ p" by (rule rnd_error)
  have "\<bar>x\<bar> / 2 ^ p \<le> \<bar>x\<bar> / 1" by (rule divide_left_mono) simp_all
  hence "\<bar>rnd p x - x\<bar> \<le> x" using e assms by simp
  thus "0 \<le> rnd p x" and "rnd p x \<le> 2 * x" by linarith+
qed

lemma example_tune_overflow:
  "sint (21474837 * 100 + 0 :: c_int) = - 2147483596 \<and>
   mPitchShiftI (update example_externals \<lparr>Gain = 1\<rparr>
       \<lparr>Pshifter = \<lparr>CoarseTune = 21474837, FineTune = 0\<rparr>\<rparr> \<lparr>Main = ()\<rparr> example_state) = 0"
proof -
  have t: "sint (21474837 * 100 + 0 :: c_int) = - 2147483596" by simp
  define F where "F = to_float (real_of_int (- 2147483596))"
  define y where "y = fdiv F 1200"
  define P where "P = to_float (2 powr y)"
  define X where "X = fmul P (to_float (real (unat (MixerFracOne 16))))"
  have "\<bar>F - real_of_int (- 2147483596)\<bar> \<le> \<bar>real_of_int (- 2147483596)\<bar> / 2 ^ 24"
    unfolding F_def to_float_def by (rule rnd_error)
  hence "\<bar>F + 2147483596\<bar> \<le> 129" by simp
  hence F: "- 2147483725 \<le> F" "F \<le> - 2147483467" by linarith+
  have a: "\<bar>y - F / 1200\<bar> \<le> \<bar>F / 1200\<bar> / 2 ^ 24"
    unfolding y_def fdiv_def by (rule rnd_error)
  have "\<bar>F\<bar> \<le> 2147483725" using F by linarith
  hence "\<bar>F / 1200\<bar> / 2 ^ 24 \<le> 1" by simp
  hence "y - F / 1200 \<le> 1" using a by linarith
  moreover have "F / 1200 \<le> - 21" using F(2) by simp
  ultimately have y: "y \<le> - 20" by linarith
  have y': "y \<le> - real 20" using y by simp
  have "(2::real) powr (- real 20) = 1 / 2 ^ 20"
    by (simp only: powr_minus powr_realpow zero_less_numeral inverse_eq_divide)
  moreover have "2 powr y \<le> 2 powr (- real 20)" by (rule powr_mono[OF y']) simp
  ultimately have Z: "2 powr y \<le> 1 / 2 ^ 20" by (simp only:)
  have P: "0 \<le> P" "P \<le> 2 * 2 powr y"
    unfolding P_def to_float_def by (rule rnd_nonneg_le, simp)+
  have o: "to_float (real (unat (MixerFracOne 16))) = 2 ^ 16" by (rule to_float_One) simp
  have "0 \<le> P * 2 ^ 16" using P by simp
  hence X: "0 \<le> X" "X \<le> 2 * (P * 2 ^ 16)"
    unfolding X_def o fmul_def by (rule rnd_nonneg_le)+
  have "X < 1 / 2" using X(2) P(2) Z by simp
  hence r: "round_even X = 0" by (rule round_even_small[OF X(1)])
  have "mPitchShiftI (update example_externals \<lparr>Gain = 1\<rparr>
       \<lparr>Pshifter = \<lparr>CoarseTune = 21474837, FineTune = 0\<rparr>\<rparr> \<lparr>Main = ()\<rparr> example_state)
      = word_of_int (round_even X)"
    unfolding update_pitch_fields(1)
    by (simp add: example_externals_def X_def P_def y_def F_def)
  thus ?thesis using t r by simp
qed










subsection \<open>The framer keeps its invariant\<close>

lemma mask_1023: "(x::nat) AND (StftSize - 1) = x mod StftSize"
proof -
  have "x AND mask 10 = x mod 2 ^ 10" by (simp add: take_bit_eq_mod flip: take_bit_eq_mask)
  moreover have "(mask 10 :: nat) = 1023" by (simp add: mask_eq_exp_minus_1)
  ultimately show ?thesis by (simp add: StftSize_def)
qed

lemma mask_1023_Suc: "(x::nat) AND (StftSize - Suc 0) = x mod StftSize"
  using mask_1023[of x] by simp

lemma advance_pos:
  assumes "StftStep dvd p" "p \<le> StftSize - StftStep"
  shows "StftStep dvd (p + StftStep) mod StftSize" "(p + StftStep) mod StftSize \<le> StftSize - StftStep"
proof -
  from assms(1) obtain q where q: "p = 256 * q" by (auto simp: StftStep_def StftSize_def OversampleFactor_def dvd_def)
  with assms(2) have "q \<le> 3" by (simp add: StftStep_def StftSize_def OversampleFactor_def)
  hence "q = 0 \<or> q = 1 \<or> q = 2 \<or> q = 3" by arith
  thus "StftStep dvd (p + StftStep) mod StftSize" "(p + StftStep) mod StftSize \<le> StftSize - StftStep"
    by (auto simp: q StftStep_def StftSize_def OversampleFactor_def)
qed

subsection \<open>The wrap of a phase\<close>

lemma c_rem_2_cases: "c_rem q 2 = 0 \<or> (0 < q \<and> c_rem q 2 = 1) \<or> (q < 0 \<and> c_rem q 2 = -1)"
proof -
  have "\<bar>q\<bar> mod 2 = 0 \<or> \<bar>q\<bar> mod 2 = 1" by presburger
  thus ?thesis by (cases "q = 0"; cases "0 < q") (auto simp: c_rem_def)
qed

lemma double2int_bounds:
  "0 \<le> d \<Longrightarrow> 0 \<le> double2int d \<and> real_of_int (double2int d) \<le> d \<and> d < real_of_int (double2int d) + 1"
  "d < 0 \<Longrightarrow> double2int d \<le> 0 \<and> d \<le> real_of_int (double2int d) \<and> real_of_int (double2int d) - 1 < d"
  unfolding double2int_def by (simp_all, linarith+)

lemma wrap_unit_bound:
  "\<bar>x - real_of_int (double2int x + c_rem (double2int x) 2)\<bar> \<le> 1"
proof (cases "0 \<le> x")
  case True
  from double2int_bounds(1)[OF True] c_rem_2_cases[of "double2int x"]
  show ?thesis by auto
next
  case False
  hence "x < 0" by simp
  from double2int_bounds(2)[OF this] c_rem_2_cases[of "double2int x"]
  show ?thesis by auto
qed

text \<open>Without rounding, the wrap would bring every phase between \<open>- pi\<close> and \<open>pi\<close>.\<close>

lemma wrap_pi_bound:
  fixes tmp :: real
  defines "qpd \<equiv> double2int (tmp * inv_pi)"
  shows "- pi \<le> tmp - pi * real_of_int (qpd + c_rem qpd 2)"
    and "tmp - pi * real_of_int (qpd + c_rem qpd 2) \<le> pi"
proof -
  let ?m = "real_of_int (qpd + c_rem qpd 2)"
  have "\<bar>tmp * inv_pi - ?m\<bar> \<le> 1"
    unfolding qpd_def by (rule wrap_unit_bound)
  hence "\<bar>tmp * inv_pi - ?m\<bar> * pi \<le> 1 * pi"
    by (rule mult_right_mono) simp
  moreover have "\<bar>tmp * inv_pi - ?m\<bar> * pi = \<bar>(tmp * inv_pi - ?m) * pi\<bar>"
    by (simp add: abs_mult)
  moreover have "(tmp * inv_pi - ?m) * pi = tmp - pi * ?m"
    by (simp add: inv_pi_def algebra_simps)
  ultimately have "\<bar>tmp - pi * ?m\<bar> \<le> pi" by (simp only: mult_1)
  thus "- pi \<le> tmp - pi * ?m" and "tmp - pi * ?m \<le> pi" by linarith+
qed


subsection \<open>The wrap of the accumulated phase, rounded\<close>

text \<open>
  Whatever the advanced phase \<open>tmp\<close>, the wrapped phase exceeds \<open>pi\<close> by a relative
  excess of at most \<open>(m + 1) / 2 ^ 50\<close> only, for \<open>m\<close> the magnitude of the number of half
  turns taken off: the errors are those of the two constants, of the quotient, of the
  product and of the difference.
\<close>

lemma wrap_phase_bound:
  "\<bar>wrap_phase tmp\<bar> \<le> pi * (1 + (\<bar>real_of_int (half_turns tmp)\<bar> + 1) / 2 ^ 50)"
proof -
  define u :: real where "u = 1 / 2 ^ 53"
  define c where "c = 1 / inv_pi_d"
  define a where "a = tmp * inv_pi_d"
  define t where "t = rnd 53 a"
  define m where "m = real_of_int (half_turns tmp)"
  define p where "p = rnd 53 (pi_d * m)"
  define w where "w = tmp - p"
  define K where "K = u * pi"
  define M where "M = \<bar>m\<bar> + 1"
  have u: "0 < u" "u \<le> 1 / 4" by (simp_all add: u_def)
  have K: "0 \<le> K" using u by (simp add: K_def)
  have M: "1 \<le> M" "\<bar>m\<bar> \<le> M" by (simp_all add: M_def)
  have v: "wrap_phase tmp = rnd 53 w"
    by (simp add: wrap_phase_def dsub_def dmul_def w_def p_def m_def)
  have hm: "m = real_of_int (double2int t + c_rem (double2int t) 2)"
    by (simp add: m_def half_turns_def Let_def dmul_def t_def a_def)
  have tm: "\<bar>t - m\<bar> \<le> 1" unfolding hm by (rule wrap_unit_bound)
  have ta: "\<bar>t - a\<bar> \<le> u * \<bar>a\<bar>"
    using rnd_error[of 53 a] by (simp add: t_def u_def)
  have am: "\<bar>a - m\<bar> \<le> 1 + u * \<bar>a\<bar>" using tm ta by linarith
  have A: "\<bar>a\<bar> \<le> 2 * M"
  proof -
    define x where "x = u * \<bar>a\<bar>"
    have "x \<le> 1 / 4 * \<bar>a\<bar>" unfolding x_def by (rule mult_right_mono) (use u in simp_all)
    hence x: "4 * x \<le> \<bar>a\<bar>" by simp
    have "\<bar>a\<bar> \<le> \<bar>a - m\<bar> + \<bar>m\<bar>" by simp
    also have "\<dots> \<le> 1 + x + \<bar>m\<bar>" using am by (simp add: x_def)
    finally show ?thesis using x by (simp add: M_def)
  qed
  have c0: "0 < c" using inv_pi_d_pos by (simp add: c_def)
  have c1: "c \<le> pi" unfolding c_def by (rule recip_inv_pi_d_le)
  have c2: "pi - K \<le> c" using recip_inv_pi_d_ge by (simp add: c_def K_def u_def)
  have P1: "pi_d \<le> pi" by (rule pi_d_le)
  have P2: "pi - K \<le> pi_d" using pi_d_ge by (simp add: K_def u_def)
  have P0: "0 \<le> pi_d" by (simp add: pi_d_def)
  have cP: "\<bar>c - pi_d\<bar> \<le> K" using c1 c2 P1 P2 by linarith
  have tmp: "tmp = c * a" using inv_pi_d_pos by (simp add: c_def a_def)
  have split: "tmp - pi_d * m = c * (a - m) + (c - pi_d) * m"
    by (simp add: tmp algebra_simps)
  have "\<bar>c * (a - m)\<bar> = c * \<bar>a - m\<bar>" using c0 by (simp add: abs_mult)
  also have "\<dots> \<le> c * (1 + u * \<bar>a\<bar>)" by (rule mult_left_mono[OF am]) (use c0 in simp)
  also have "\<dots> \<le> pi * (1 + u * \<bar>a\<bar>)"
    by (rule mult_right_mono[OF c1]) (use u in simp)
  also have "\<dots> = pi + K * \<bar>a\<bar>" by (simp add: K_def algebra_simps)
  also have "\<dots> \<le> pi + K * (2 * M)"
    using mult_left_mono[OF A K] by simp
  finally have e1: "\<bar>c * (a - m)\<bar> \<le> pi + 2 * (K * M)" by simp
  have "\<bar>(c - pi_d) * m\<bar> = \<bar>c - pi_d\<bar> * \<bar>m\<bar>" by (simp add: abs_mult)
  also have "\<dots> \<le> K * M"
    by (rule mult_mono[OF cP M(2) K]) simp
  finally have e2: "\<bar>(c - pi_d) * m\<bar> \<le> K * M" .
  have "\<bar>p - pi_d * m\<bar> \<le> \<bar>pi_d * m\<bar> / 2 ^ 53"
    unfolding p_def by (rule rnd_error)
  also have "\<dots> = u * pi_d * \<bar>m\<bar>" using P0 by (simp add: u_def abs_mult)
  also have "\<dots> \<le> K * M"
    unfolding K_def by (rule mult_mono[OF _ M(2)]) (use u P1 P0 in \<open>simp_all add: mult_left_mono\<close>)
  finally have e3: "\<bar>p - pi_d * m\<bar> \<le> K * M" .
  have "w = (tmp - pi_d * m) - (p - pi_d * m)" by (simp add: w_def)
  hence "\<bar>w\<bar> \<le> \<bar>c * (a - m)\<bar> + \<bar>(c - pi_d) * m\<bar> + \<bar>p - pi_d * m\<bar>"
    unfolding split by linarith
  hence W: "\<bar>w\<bar> \<le> pi + 4 * (K * M)" using e1 e2 e3 by linarith
  have KM: "0 \<le> K * M" using K M by simp
  have "\<bar>rnd 53 w - w\<bar> \<le> u * \<bar>w\<bar>" using rnd_error[of 53 w] by (simp add: u_def)
  also have "\<dots> \<le> u * (pi + 4 * (K * M))"
    by (rule mult_left_mono[OF W]) (use u in simp)
  also have "\<dots> = K + 4 * u * (K * M)" by (simp add: K_def algebra_simps)
  also have "\<dots> \<le> K * M + 1 * (K * M)"
  proof (rule add_mono)
    show "K \<le> K * M" using mult_left_mono[OF M(1) K] by simp
    show "4 * u * (K * M) \<le> 1 * (K * M)" by (rule mult_right_mono[OF _ KM]) (use u in simp)
  qed
  finally have R: "\<bar>rnd 53 w - w\<bar> \<le> 2 * (K * M)" by simp
  have "\<bar>rnd 53 w\<bar> \<le> pi + 6 * (K * M)" using W R by linarith
  also have "\<dots> \<le> pi + 8 * (K * M)" using KM by simp
  also have "\<dots> = pi * (1 + M / 2 ^ 50)" by (simp add: K_def u_def algebra_simps)
  finally show ?thesis by (simp only: v M_def m_def)
qed

lemma synthesize_bin_sum_phase:
  "mSumPhase (synthesize_bin k st)
     = (mSumPhase st)[k := wrap_phase (dadd (mSumPhase st ! k)
                              (dmul (FreqBin (mSynthesisBuffer st ! k)) expected_cycles_d))]"
  by (simp add: synthesize_bin_def Let_def wrap_phase_def half_turns_def)

lemma expected_cycles_d_value: "expected_cycles_d = 884279719003555 / 2 ^ 49"
proof -
  have "dmul pi_d 2 = rnd 53 (real 884279719003555 / 2 ^ 47)"
    by (simp add: dmul_def pi_d_def)
  also have "\<dots> = real 884279719003555 / 2 ^ 47" by (rule rnd_exact_div_pow2) simp
  finally have a: "dmul pi_d 2 = 884279719003555 / 2 ^ 47" by simp
  have "to_double (real OversampleFactor) = rnd 53 (real 4)"
    by (simp add: to_double_def OversampleFactor_def)
  also have "\<dots> = real 4" by (rule rnd_exact_nat) simp
  finally have b: "to_double (real OversampleFactor) = 4" by simp
  have "ddiv (884279719003555 / 2 ^ 47) 4 = rnd 53 (real 884279719003555 / 2 ^ 49)"
    by (simp add: ddiv_def)
  also have "\<dots> = real 884279719003555 / 2 ^ 49" by (rule rnd_exact_div_pow2) simp
  finally show ?thesis by (simp add: expected_cycles_d_def a b)
qed

text \<open>
  The first cycle after a reset, for a bin with the destination frequency 22: the
  advance \<open>22 * expected_cycles\<close> is a tie and is rounded down, the quotient by \<open>pi\<close> is
  rounded to 11 and made 12, and the difference is below \<open>- pi\<close>.
\<close>

lemma example_advance: "dadd 0 (dmul 22 expected_cycles_d) = 18998197087967 / 2 ^ 39"
proof -
  have "rnd 53 (22 * (884279719003555 / 2 ^ 49))
      = of_int (round_even (22 * (884279719003555 / 2 ^ 49) * 2 ^ 47)) / 2 ^ 47"
    by (rule rnd_eval_frac) simp_all
  also have "\<dots> = 18998197087967 / 2 ^ 39"
    by (simp add: round_even_def Let_def)
  finally have a: "dmul 22 expected_cycles_d = real 18998197087967 / 2 ^ 39"
    by (simp add: dmul_def expected_cycles_d_value)
  have "rnd 53 (real 18998197087967 / 2 ^ 39) = real 18998197087967 / 2 ^ 39"
    by (rule rnd_exact_div_pow2) simp
  thus ?thesis unfolding a by (simp add: dadd_def)
qed

lemma example_quotient: "dmul (18998197087967 / 2 ^ 39) inv_pi_d = 11"
proof -
  have "rnd 53 (18998197087967 / 2 ^ 39 * (5734161139222659 / 2 ^ 54))
      = of_int (round_even (18998197087967 / 2 ^ 39 * (5734161139222659 / 2 ^ 54) * 2 ^ 49)) / 2 ^ 49"
    by (rule rnd_eval_frac) simp_all
  also have "\<dots> = 11"
    by (simp add: round_even_def Let_def)
  finally show ?thesis by (simp add: dmul_def inv_pi_d_def)
qed

lemma example_half_turns: "half_turns (18998197087967 / 2 ^ 39) = 12"
  unfolding half_turns_def Let_def example_quotient by (simp add: double2int_def c_rem_def)

lemma example_product: "dmul pi_d 12 = 2652839157010665 / 2 ^ 46"
proof -
  have "rnd 53 (real 2652839157010665 / 2 ^ 46) = real 2652839157010665 / 2 ^ 46"
    by (rule rnd_exact_div_pow2) simp
  thus ?thesis by (simp add: dmul_def pi_d_def)
qed

lemma example_wrap: "wrap_phase (18998197087967 / 2 ^ 39) = - (221069929750889 / 2 ^ 46)"
proof -
  have "rnd 53 (- (real 221069929750889 / 2 ^ 46)) = - (real 221069929750889 / 2 ^ 46)"
    using rnd_exact_int_div_pow2[of "- 221069929750889" 53 46] by simp
  moreover have "18998197087967 / 2 ^ 39 - 2652839157010665 / 2 ^ 46
       = - (real 221069929750889 / 2 ^ 46)" by simp
  ultimately show ?thesis
    unfolding wrap_phase_def example_half_turns of_int_numeral example_product dsub_def by simp
qed

text \<open>
  Along a run the destination frequency is at most \<open>513 + 2 ^ 17\<close> and the phase at most
  4 in magnitude; then at most \<open>2 ^ 17\<close> half turns are taken off, which is far inside
  the range of \<^verbatim>\<open>int\<close>, and the wrapped phase is within the bound.
\<close>

lemma advanced_phase_bound:
  assumes "\<bar>s\<bar> \<le> 4" "\<bar>f\<bar> \<le> 131585"
  shows "\<bar>dadd s (dmul f expected_cycles_d)\<bar> \<le> 263176"
proof -
  define x where "x = f * expected_cycles_d"
  have ec: "0 \<le> expected_cycles_d" "expected_cycles_d \<le> 2"
    by (simp_all add: expected_cycles_d_value)
  have "\<bar>x\<bar> = \<bar>f\<bar> * expected_cycles_d" using ec by (simp add: x_def abs_mult)
  also have "\<dots> \<le> 131585 * 2" by (rule mult_mono[OF assms(2) ec(2)]) (use ec in simp_all)
  finally have x: "\<bar>x\<bar> \<le> 263170" by simp
  have "\<bar>rnd 53 x\<bar> \<le> \<bar>x\<bar> + \<bar>x\<bar> / 2 ^ 53" by (rule rnd_abs_le)
  hence x1: "\<bar>rnd 53 x\<bar> \<le> 263171" using x by simp
  have y: "\<bar>s + rnd 53 x\<bar> \<le> 263175" using assms(1) x1 by linarith
  have "\<bar>rnd 53 (s + rnd 53 x)\<bar> \<le> \<bar>s + rnd 53 x\<bar> + \<bar>s + rnd 53 x\<bar> / 2 ^ 53"
    by (rule rnd_abs_le)
  hence "\<bar>rnd 53 (s + rnd 53 x)\<bar> \<le> 263176" using y by simp
  thus ?thesis by (simp add: dadd_def dmul_def x_def)
qed

lemma half_turns_bound:
  assumes "\<bar>tmp\<bar> \<le> 263176"
  shows "\<bar>dmul tmp inv_pi_d\<bar> \<le> 87727" and "\<bar>real_of_int (half_turns tmp)\<bar> + 1 \<le> 2 ^ 17"
proof -
  define a where "a = tmp * inv_pi_d"
  have i: "0 \<le> inv_pi_d" "inv_pi_d \<le> 1 / 3" by (simp_all add: inv_pi_d_def)
  have "\<bar>a\<bar> = \<bar>tmp\<bar> * inv_pi_d" using i by (simp add: a_def abs_mult)
  also have "\<dots> \<le> 263176 * (1 / 3)" by (rule mult_mono[OF assms i(2)]) (use i in simp_all)
  finally have a: "\<bar>a\<bar> \<le> 87726" by simp
  have "\<bar>rnd 53 a\<bar> \<le> \<bar>a\<bar> + \<bar>a\<bar> / 2 ^ 53" by (rule rnd_abs_le)
  hence t: "\<bar>rnd 53 a\<bar> \<le> 87727" using a by simp
  thus "\<bar>dmul tmp inv_pi_d\<bar> \<le> 87727" by (simp add: dmul_def a_def)
  have "\<bar>rnd 53 a - real_of_int (double2int (rnd 53 a) + c_rem (double2int (rnd 53 a)) 2)\<bar> \<le> 1"
    by (rule wrap_unit_bound)
  hence "\<bar>rnd 53 a - real_of_int (half_turns tmp)\<bar> \<le> 1"
    by (simp add: half_turns_def Let_def dmul_def a_def)
  thus "\<bar>real_of_int (half_turns tmp)\<bar> + 1 \<le> 2 ^ 17" using t by simp
qed

lemma phase_bound_le_4: "phase_bound \<le> 4"
proof -
  have "pi * (1 + 1 / 2 ^ 33) \<le> 31415926535897933 / 10 ^ 16 * (1 + 1 / 2 ^ 33)"
    by (rule mult_right_mono) (use pi_upper in simp_all)
  thus ?thesis by (simp add: phase_bound_def)
qed

lemma wrap_step_bound:
  assumes "\<bar>s\<bar> \<le> phase_bound" "\<bar>f\<bar> \<le> 131585"
  shows "\<bar>wrap_phase (dadd s (dmul f expected_cycles_d))\<bar> \<le> phase_bound"
proof -
  define tmp where "tmp = dadd s (dmul f expected_cycles_d)"
  have "\<bar>s\<bar> \<le> 4" using assms(1) phase_bound_le_4 by linarith
  hence "\<bar>tmp\<bar> \<le> 263176" unfolding tmp_def by (rule advanced_phase_bound[OF _ assms(2)])
  hence m: "\<bar>real_of_int (half_turns tmp)\<bar> + 1 \<le> 2 ^ 17" by (rule half_turns_bound(2))
  have "\<bar>wrap_phase tmp\<bar> \<le> pi * (1 + (\<bar>real_of_int (half_turns tmp)\<bar> + 1) / 2 ^ 50)"
    by (rule wrap_phase_bound)
  also have "\<dots> \<le> pi * (1 + 2 ^ 17 / 2 ^ 50)"
    by (rule mult_left_mono) (use m in \<open>simp_all add: divide_right_mono\<close>)
  also have "\<dots> = phase_bound" by (simp add: phase_bound_def)
  finally show ?thesis by (simp only: tmp_def)
qed

subsection \<open>Invariants of the loop and of a run\<close>


lemma fold_inv:
  assumes "\<And>k s. P s \<Longrightarrow> P (f k s)" and "P s"
  shows "P (fold f ks s)"
  using assms(2) by (induction ks arbitrary: s) (simp_all add: assms(1))

lemma hop_total:
  assumes "mPitchShiftI st \<noteq> 0"
  shows "\<exists>st'. hop E st = Some st'"
  using assms by (simp add: hop_def hop_spectral_def Let_def remap_def bin_count_def)

lemma hop_None: "hop E st = None \<longleftrightarrow> mPitchShiftI st = 0"
  by (simp add: hop_def hop_spectral_def Let_def remap_def bin_count_def)

text \<open>An invariant of the states that the loop keeps, if the framer and the cycle keep it.\<close>

lemma process_loop_invariant:
  assumes chunk: "\<And>inp base todo st. P st \<Longrightarrow> P (framer_chunk inp base todo st)"
    and adv: "\<And>st p. P st \<Longrightarrow> P (st\<lparr>mCount := 0, mPos := p\<rparr>)"
  shows "(\<And>st st'. P st \<Longrightarrow> hop E st = Some st' \<Longrightarrow> P st') \<Longrightarrow> P st
           \<Longrightarrow> process_loop E n inp base st = Some st' \<Longrightarrow> P st'"
proof (induction E n inp base st rule: process_loop.induct)
  case (1 E n inp base st)
  let ?todo = "minz (size_t_sub StftStep (mCount st)) (n - base)"
  let ?st1 = "framer_chunk inp base ?todo st"
  let ?st2 = "?st1\<lparr>mCount := 0\<rparr>"
  let ?st3 = "?st2\<lparr>mPos := (mPos ?st2 + StftStep) AND (StftSize - 1)\<rparr>"
  show ?case
  proof (cases "base < n")
    case False
    with "1.prems" show ?thesis by (simp add: process_loop.simps)
  next
    case True
    have p1: "P ?st1" by (rule chunk[OF "1.prems"(2)])
    show ?thesis
    proof (cases "mCount ?st1 < StftStep")
      case lt: True
      hence "st' = ?st1" using "1.prems"(3) True
        by (subst (asm) process_loop.simps) (simp add: Let_def)
      thus ?thesis using p1 by simp
    next
      case ge: False
      from "1.prems"(3) True ge obtain st4 where h: "hop E ?st3 = Some st4"
        and r: "process_loop E n inp (base + ?todo) st4 = Some st'"
        by (subst (asm) process_loop.simps) (auto simp: Let_def split: option.splits)
      have "P ?st3" using adv[OF p1] by simp
      hence p4: "P st4" using h by (rule "1.prems"(1))
      show ?thesis
        by (rule "1.IH"[OF True refl refl refl ge refl refl h "1.prems"(1) p4 r])
    qed
  qed
qed

lemma process_loop_framer_inv:
  "framer_inv st \<Longrightarrow> process_loop E n inp base st = Some st' \<Longrightarrow> framer_inv st'"
proof (induction E n inp base st rule: process_loop.induct)
  case (1 E n inp base st)
  let ?todo = "minz (size_t_sub StftStep (mCount st)) (n - base)"
  let ?st1 = "framer_chunk inp base ?todo st"
  let ?st2 = "?st1\<lparr>mCount := 0\<rparr>"
  let ?st3 = "?st2\<lparr>mPos := (mPos ?st2 + StftStep) AND (StftSize - 1)\<rparr>"
  show ?case
  proof (cases "base < n")
    case False
    with "1.prems" show ?thesis by (simp add: process_loop.simps)
  next
    case True
    have c: "mCount st < StftStep" using "1.prems"(1) by (simp add: framer_inv_def)
    show ?thesis
    proof (cases "mCount ?st1 < StftStep")
      case lt: True
      hence "st' = ?st1" using "1.prems"(2) True
        by (subst (asm) process_loop.simps) (simp add: Let_def)
      thus ?thesis using lt "1.prems"(1) by (simp add: framer_inv_def)
    next
      case ge: False
      from "1.prems"(2) True ge obtain st4 where h: "hop E ?st3 = Some st4"
        and r: "process_loop E n inp (base + ?todo) st4 = Some st'"
        by (subst (asm) process_loop.simps) (auto simp: Let_def split: option.splits)
      have "mPos ?st3 = (mPos st + StftStep) mod StftSize" "mCount ?st3 = 0"
        by (simp_all add: mask_1023_Suc)
      moreover have "0 < StftStep" by (simp add: StftStep_def StftSize_def OversampleFactor_def)
      ultimately have "framer_inv ?st3" using "1.prems"(1) advance_pos[of "mPos st"]
        by (simp add: framer_inv_def)
      hence "framer_inv st4" using hop_frame(1,2)[OF h] by (simp add: framer_inv_def)
      thus ?thesis
        by (rule "1.IH"[OF True refl refl refl ge refl refl h _ r])
    qed
  qed
qed

lemma process_loop_pitch:
  assumes "process_loop E n inp base st = Some st'"
  shows "mPitchShiftI st' = mPitchShiftI st"
proof -
  have "mPitchShiftI st' = mPitchShiftI st"
  proof (rule process_loop_invariant[where P = "\<lambda>s. mPitchShiftI s = mPitchShiftI st",
          OF _ _ _ refl assms])
    fix s s' assume a: "mPitchShiftI s = mPitchShiftI st" and h: "hop E s = Some s'"
    show "mPitchShiftI s' = mPitchShiftI st" using hop_frame(3)[OF h] a by simp
  qed simp_all
  thus ?thesis .
qed

lemma process_loop_total:
  "mPitchShiftI st \<noteq> 0 \<Longrightarrow> \<exists>st'. process_loop E n inp base st = Some st'"
proof (induction E n inp base st rule: process_loop.induct)
  case (1 E n inp base st)
  let ?todo = "minz (size_t_sub StftStep (mCount st)) (n - base)"
  let ?st1 = "framer_chunk inp base ?todo st"
  let ?st2 = "?st1\<lparr>mCount := 0\<rparr>"
  let ?st3 = "?st2\<lparr>mPos := (mPos ?st2 + StftStep) AND (StftSize - 1)\<rparr>"
  show ?case
  proof (cases "base < n \<and> \<not> mCount ?st1 < StftStep")
    case False
    thus ?thesis by (subst process_loop.simps) (auto simp: Let_def)
  next
    case True
    have "mPitchShiftI ?st3 \<noteq> 0" using "1.prems" by simp
    then obtain st4 where h: "hop E ?st3 = Some st4" using hop_total by blast
    have "mPitchShiftI st4 \<noteq> 0" using hop_frame(3)[OF h] "1.prems" by simp
    from "1.IH"[OF conjunct1[OF True] refl refl refl conjunct2[OF True] refl refl h this]
    obtain st' where "process_loop E n inp (base + ?todo) st4 = Some st'" by blast
    thus ?thesis using True h by (subst process_loop.simps) (simp add: Let_def)
  qed
qed


lemma fold_length:
  assumes "\<And>k s. length (g (f k s)) = length (g s)"
  shows "length (g (fold f ks s)) = length (g s)"
  by (induction ks arbitrary: s) (simp_all add: assms)

lemma hop_length_mSumPhase:
  assumes "hop E st = Some st'"
  shows "length (mSumPhase st') = length (mSumPhase st)"
proof -
  from assms obtain st1 where r: "remap E (analyze ((window_input st)\<lparr>mFftBuffer := forward_fft E (mFftBuffer (window_input st))\<rparr>)) = Some st1"
    and s: "st' = copy_out (overlap_add ((synthesize st1)\<lparr>mFftBuffer := inverse_fft E (mFftBuffer (synthesize st1))\<rparr>))"
    by (auto simp: hop_def hop_spectral_def Let_def split: option.splits)
  have a: "mSumPhase st1 = mSumPhase st" using remap_frame(7)[OF r] by simp
  have "length (mSumPhase (fold synthesize_bin [0..<StftHalfSize + 1] st1)) = length (mSumPhase st1)"
    by (rule fold_length) (simp add: synthesize_bin_def Let_def)
  hence "length (mSumPhase (synthesize st1)) = length (mSumPhase st1)"
    by (simp add: synthesize_def Let_def)
  thus ?thesis by (simp add: s a)
qed

lemma process_loop_length_mSumPhase:
  assumes "process_loop E n inp base st = Some st'"
  shows "length (mSumPhase st') = length (mSumPhase st)"
proof (rule process_loop_invariant[where P = "\<lambda>s. length (mSumPhase s) = length (mSumPhase st)",
        OF _ _ _ refl assms])
  fix s s' assume a: "length (mSumPhase s) = length (mSumPhase st)" and h: "hop E s = Some s'"
  show "length (mSumPhase s') = length (mSumPhase st)" using hop_length_mSumPhase[OF h] a by simp
qed simp_all

lemma process_Some:
  assumes "process E n ins outs st = Some r"
  shows "\<exists>st1 gains. process_loop E n (ins ! 0) 0 st = Some st1 \<and>
                      fst r = st1\<lparr>mCurrentGains := gains\<rparr>"
proof (cases "process_loop E n (ins ! 0) 0 st")
  case None
  thus ?thesis using assms by (simp add: process_def)
next
  case (Some st1)
  obtain out gains where m: "MixSamples E (take n (mBufferOut st1)) outs (mCurrentGains st1)
      (mTargetGains st1) (maxz n 512) 0 = (out, gains)" by (cases "MixSamples E (take n (mBufferOut st1)) outs (mCurrentGains st1)
      (mTargetGains st1) (maxz n 512) 0")
  have "r = (st1\<lparr>mCurrentGains := gains\<rparr>, out)"
    using assms Some m by (simp add: process_def)
  thus ?thesis using Some by auto
qed

lemma process_total:
  assumes "mPitchShiftI st \<noteq> 0"
  shows "\<exists>r. process E n ins outs st = Some r"
proof -
  obtain st1 where "process_loop E n (ins ! 0) 0 st = Some st1"
    using process_loop_total[OF assms] by blast
  thus ?thesis by (simp add: process_def Let_def split: prod.splits)
qed


lemma deviceUpdate_framer_inv: "framer_inv (deviceUpdate E st)"
  by (simp add: framer_inv_def deviceUpdate_def StftStep_def StftSize_def OversampleFactor_def)

lemma exec_framer_inv:
  assumes "framer_inv st" "exec E c st = Some st'"
  shows "framer_inv st'"
proof (cases c)
  case DeviceUpdate
  thus ?thesis using assms deviceUpdate_framer_inv[of E st] by auto
next
  case (Update slot props target)
  thus ?thesis using assms by (auto simp: framer_inv_def update_def Let_def)
next
  case (Process n ins outs)
  with assms(2) obtain r where r: "process E n ins outs st = Some r" and s: "st' = fst r"
    by auto
  from process_Some[OF r] obtain st1 gains where l: "process_loop E n (ins ! 0) 0 st = Some st1"
    and f: "fst r = st1\<lparr>mCurrentGains := gains\<rparr>" by blast
  have "framer_inv st1" by (rule process_loop_framer_inv[OF assms(1) l])
  thus ?thesis by (simp add: s f framer_inv_def)
qed

lemma run_invariant:
  assumes "\<And>c st st'. P st \<Longrightarrow> exec E c st = Some st' \<Longrightarrow> P st'"
  shows "P st \<Longrightarrow> run E cs st = Some st' \<Longrightarrow> P st'"
proof (induction cs arbitrary: st)
  case Nil
  thus ?case by simp
next
  case (Cons c cs)
  from Cons.prems(2) obtain st1 where e: "exec E c st = Some st1" and r: "run E cs st1 = Some st'"
    by (auto split: option.splits)
  show ?case by (rule Cons.IH[OF assms[OF Cons.prems(1) e] r])
qed

lemma run_framer_inv:
  assumes "framer_inv st" "run E cs st = Some st'"
  shows "framer_inv st'"
  by (rule run_invariant[where P = framer_inv, OF exec_framer_inv assms])

lemma run_single_process:
  assumes "mPitchShiftI st \<noteq> 0"
  shows "\<exists>st'. run E [Process n ins outs] st = Some st'"
proof -
  obtain r where "process E n ins outs st = Some r" using process_total[OF assms] by blast
  thus ?thesis by simp
qed

lemma example_reset_pitch: "mPitchShiftI (deviceUpdate example_externals example_state) \<noteq> 0"
  by (simp add: deviceUpdate_def example_externals_def MixerFracOne_def)


subsection \<open>C10: cursor and hop counter\<close>

text \<open>
  C10. After \<^verbatim>\<open>deviceUpdate\<close> and after any calls that follow it (so at entry and exit of
  every \<^verbatim>\<open>process\<close>), the cursor \<^verbatim>\<open>mPos\<close> is a multiple of \<open>StftStep\<close> and at most
  \<open>StftSize - StftStep\<close>, and the hop counter \<^verbatim>\<open>mCount\<close> is below \<open>StftStep\<close>. So every
  index \<open>mPos + mCount + i\<close>, for \<open>i\<close> below the chunk size \<open>todo\<close> of an iteration, is
  below \<open>StftSize\<close>, whatever \<open>samplesToDo\<close> and \<open>base\<close>.
\<close>

theorem framer_invariant:
  assumes "run E cs (deviceUpdate E st0) = Some st"
  shows "StftStep dvd mPos st \<and> mPos st \<le> StftSize - StftStep \<and> mCount st < StftStep \<and>
         (\<forall>n base i. i < minz (size_t_sub StftStep (mCount st)) (n - base)
                       \<longrightarrow> mPos st + mCount st + i < StftSize)"
proof -
  have "framer_inv st"
    by (rule run_framer_inv[OF deviceUpdate_framer_inv assms])
  hence i: "StftStep dvd mPos st" "mPos st \<le> StftSize - StftStep" "mCount st < StftStep"
    by (simp_all add: framer_inv_def)
  have "mPos st + mCount st + i < StftSize"
    if "i < minz (size_t_sub StftStep (mCount st)) (n - base)" for n base i
  proof -
    have "minz (size_t_sub StftStep (mCount st)) (n - base) \<le> StftStep - mCount st"
      using i(3) by (simp add: minz_def size_t_sub_def)
    hence "mCount st + i < StftStep" using that by linarith
    moreover have "StftStep \<le> StftSize" by (simp add: StftStep_def StftSize_def OversampleFactor_def)
    ultimately show ?thesis using i(2) by linarith
  qed
  thus ?thesis using i by blast
qed

theorem framer_invariant_witness:
  "\<exists>st. run example_externals [Process 300 [replicate 300 1] [[]]]
            (deviceUpdate example_externals example_state) = Some st \<and>
        StftStep dvd mPos st \<and> mPos st \<le> StftSize - StftStep \<and> mCount st < StftStep \<and>
        0 < minz (size_t_sub StftStep (mCount st)) (1 - 0) \<and>
        mPos st + mCount st + 0 < StftSize"
proof -
  obtain st where r: "run example_externals [Process 300 [replicate 300 1] [[]]]
            (deviceUpdate example_externals example_state) = Some st"
    using run_single_process[OF example_reset_pitch] by blast
  note t = framer_invariant[OF r]
  hence c: "mCount st < StftStep" by simp
  have p: "0 < minz (size_t_sub StftStep (mCount st)) (1 - 0)"
    using todo_positive(1)[of 0 1 "mCount st"] c by simp
  have "mPos st + mCount st + 0 < StftSize" using t p by blast
  thus ?thesis using r t p by blast
qed


subsection \<open>What a run keeps of the accumulated phases\<close>

lemma fold_inv_set:
  "(\<And>k s. k \<in> set ks \<Longrightarrow> P s \<Longrightarrow> P (f k s)) \<Longrightarrow> P s \<Longrightarrow> P (fold f ks s)"
proof (induction ks arbitrary: s)
  case Nil
  thus ?case by simp
next
  case (Cons a ks)
  have "P (f a s)" by (rule Cons.prems(1)) (simp_all add: Cons.prems(2))
  moreover have "\<And>k s. k \<in> set ks \<Longrightarrow> P s \<Longrightarrow> P (f k s)" using Cons.prems(1) by simp
  ultimately show ?case using Cons.IH by simp
qed

text \<open>The analysis frequency of bin \<open>k\<close> is within 2 of \<open>k\<close>.\<close>

lemma analyze_bin_buffer:
  "\<exists>m b. mAnalysisBuffer (analyze_bin k st)
            = (mAnalysisBuffer st)[k := \<lparr>Magnitude = m, FreqBin = b\<rparr>] \<and> \<bar>b\<bar> \<le> real k + 2"
proof -
  define x where "x = ((Arg (mFftBuffer st ! k) - mLastPhase st ! k)
                        - real (k mod OversampleFactor) * expected_cycles) * inv_pi"
  define d where "d = x - real_of_int (double2int x + c_rem (double2int x) 2)"
  have a: "mAnalysisBuffer (analyze_bin k st)
      = (mAnalysisBuffer st)[k := \<lparr>Magnitude = cmod (mFftBuffer st ! k),
                                    FreqBin = real k + d * (0.5 * real OversampleFactor)\<rparr>]"
    by (simp add: analyze_bin_def Let_def x_def d_def)
  have "\<bar>d\<bar> \<le> 1" unfolding d_def by (rule wrap_unit_bound)
  hence "\<bar>real k + d * (0.5 * real OversampleFactor)\<bar> \<le> real k + 2"
    by (simp add: OversampleFactor_def; linarith)
  thus ?thesis using a by blast
qed

lemma analyze_bin_freq_inv: "freq_inv st \<Longrightarrow> freq_inv (analyze_bin k st)"
proof -
  assume a: "freq_inv st"
  obtain m b where e: "mAnalysisBuffer (analyze_bin k st)
      = (mAnalysisBuffer st)[k := \<lparr>Magnitude = m, FreqBin = b\<rparr>]" and b: "\<bar>b\<bar> \<le> real k + 2"
    using analyze_bin_buffer by blast
  show ?thesis unfolding freq_inv_def e
  proof (intro allI impI)
    fix j assume "j < length ((mAnalysisBuffer st)[k := \<lparr>Magnitude = m, FreqBin = b\<rparr>])"
    hence j: "j < length (mAnalysisBuffer st)" by simp
    show "\<bar>FreqBin ((mAnalysisBuffer st)[k := \<lparr>Magnitude = m, FreqBin = b\<rparr>] ! j)\<bar> \<le> real j + 2"
    proof (cases "j = k")
      case True
      thus ?thesis using j b by simp
    next
      case False
      thus ?thesis using j a by (simp add: freq_inv_def)
    qed
  qed
qed

lemma analyze_freq_inv: "freq_inv st \<Longrightarrow> freq_inv (analyze st)"
  unfolding analyze_def by (rule fold_inv[where P = freq_inv, OF analyze_bin_freq_inv])

lemma analyze_length: "length (mAnalysisBuffer (analyze st)) = length (mAnalysisBuffer st)"
  unfolding analyze_def by (rule fold_length) (simp add: analyze_bin_def Let_def)

text \<open>
  The destination frequency is at most \<open>513 + 2 ^ 17\<close>: a scanned bin \<open>k\<close> has its
  destination, about \<open>k\<close> times the pitch, below 513, and the pitch is below \<open>2 ^ 16\<close>.
\<close>

lemma remap_bin_freq_bound:
  assumes v: "\<bar>FreqBin (an ! k) * ps\<bar> \<le> B" and syn: "\<forall>b \<in> set syn. \<bar>FreqBin b\<bar> \<le> B"
  shows "\<forall>b \<in> set (remap_bin fb psI ps an k syn). \<bar>FreqBin b\<bar> \<le> B"
proof -
  define j where "j = unat (bin_dest fb psI (word_of_nat k))"
  define syn1 where "syn1 = (if Magnitude (an ! k) > Magnitude (syn ! j)
                             then syn[j := (syn ! j)\<lparr>FreqBin := FreqBin (an ! k) * ps\<rparr>] else syn)"
  have r: "remap_bin fb psI ps an k syn
      = syn1[j := (syn1 ! j)\<lparr>Magnitude := Magnitude (syn1 ! j) + Magnitude (an ! k)\<rparr>]"
    by (simp add: remap_bin_def Let_def j_def syn1_def)
  have s1: "\<forall>b \<in> set syn1. \<bar>FreqBin b\<bar> \<le> B"
  proof
    fix b assume "b \<in> set syn1"
    hence "b \<in> set syn \<or> b = (syn ! j)\<lparr>FreqBin := FreqBin (an ! k) * ps\<rparr>"
      using set_update_subset_insert[of syn j "(syn ! j)\<lparr>FreqBin := FreqBin (an ! k) * ps\<rparr>"]
      by (auto simp: syn1_def split: if_splits)
    thus "\<bar>FreqBin b\<bar> \<le> B" using syn v by auto
  qed
  show ?thesis
  proof (cases "j < length syn1")
    case True
    hence "syn1 ! j \<in> set syn1" by simp
    hence h: "\<bar>FreqBin (syn1 ! j)\<bar> \<le> B" using s1 by blast
    show ?thesis unfolding r
    proof
      fix b
      assume "b \<in> set (syn1[j := (syn1 ! j)\<lparr>Magnitude := Magnitude (syn1 ! j) + Magnitude (an ! k)\<rparr>])"
      hence "b \<in> set syn1 \<or> b = (syn1 ! j)\<lparr>Magnitude := Magnitude (syn1 ! j) + Magnitude (an ! k)\<rparr>"
        using set_update_subset_insert[of syn1 j
                "(syn1 ! j)\<lparr>Magnitude := Magnitude (syn1 ! j) + Magnitude (an ! k)\<rparr>"] by auto
      thus "\<bar>FreqBin b\<bar> \<le> B" using s1 h by auto
    qed
  next
    case False
    hence "length syn1 \<le> j" by simp
    hence "syn1[j := (syn1 ! j)\<lparr>Magnitude := Magnitude (syn1 ! j) + Magnitude (an ! k)\<rparr>] = syn1"
      by (rule list_update_beyond)
    thus ?thesis unfolding r using s1 by simp
  qed
qed

lemma remap_bin_length: "length (remap_bin fb psI ps an k syn) = length syn"
  by (simp add: remap_bin_def Let_def)

lemma fold_remap_bin_length: "length (fold (remap_bin fb psI ps an) ks syn) = length syn"
  by (induction ks arbitrary: syn) (simp_all add: remap_bin_length)

lemma remap_length:
  assumes "remap E st = Some st'"
  shows "length (mSynthesisBuffer st') = length (mSynthesisBuffer st)"
  using assms
  by (auto simp: remap_def Let_def fold_remap_bin_length fill_replicate split: option.splits)

lemma scanned_frequency_bound:
  fixes k p fb :: nat and a :: real
  assumes fb: "16 \<le> fb" and p: "p < 2 ^ 32" and k: "k * p + 2 ^ fb div 2 < 513 * 2 ^ fb"
    and a: "\<bar>a\<bar> \<le> real k + 2"
  shows "\<bar>a * (real p / 2 ^ fb)\<bar> \<le> 131585"
proof -
  define ps where "ps = real p / 2 ^ fb"
  have ps0: "0 \<le> ps" by (simp add: ps_def)
  have "k * p \<le> 513 * 2 ^ fb" using k by simp
  hence "real (k * p) \<le> real (513 * 2 ^ fb)" by (simp only: of_nat_le_iff)
  hence "real k * real p \<le> 513 * 2 ^ fb" by simp
  hence kp: "real k * ps \<le> 513" by (simp add: ps_def field_simps)
  have "(2::real) ^ 16 \<le> 2 ^ fb" using fb by (intro power_increasing) simp_all
  moreover have "real p \<le> 2 ^ 32" using p by (simp flip: of_nat_le_iff)
  ultimately have "real p \<le> 2 ^ 16 * 2 ^ fb"
    using mult_left_mono[of "2 ^ 16" "2 ^ fb" "(2::real) ^ 16"] by simp
  hence p16: "ps \<le> 2 ^ 16" by (simp add: ps_def field_simps)
  have "\<bar>a * ps\<bar> = \<bar>a\<bar> * ps" using ps0 by (simp add: abs_mult)
  also have "\<dots> \<le> (real k + 2) * ps" by (rule mult_right_mono[OF a ps0])
  also have "\<dots> = real k * ps + 2 * ps" by (simp add: algebra_simps)
  also have "\<dots> \<le> 513 + 2 * 2 ^ 16" using kp p16 by simp
  finally show ?thesis by (simp add: ps_def)
qed

lemma remap_freq_bound:
  assumes fb: "16 \<le> MixerFracBits E" "MixerFracBits E \<le> 30"
    and r: "remap E st = Some st'"
    and an: "freq_inv st" "length (mAnalysisBuffer st) = StftHalfSize + 1"
    and ps: "pitch_inv E st"
  shows "\<forall>b \<in> set (mSynthesisBuffer st'). \<bar>FreqBin b\<bar> \<le> 131585"
proof -
  from r obtain bc where bc: "bin_count (MixerFracBits E) (mPitchShiftI st) = Some bc"
    and st': "st' = st\<lparr>mSynthesisBuffer :=
        fold (remap_bin (MixerFracBits E) (mPitchShiftI st) (mPitchShift st) (mAnalysisBuffer st))
             [0..<unat bc] (fill (mSynthesisBuffer st) FrequencyBin0)\<rparr>"
    by (auto simp: remap_def Let_def split: option.splits)
  have p0: "unat (mPitchShiftI st) \<noteq> 0"
    using bc by (auto simp: bin_count_def unat_eq_0 split: if_splits)
  have p32: "unat (mPitchShiftI st) < 2 ^ 32" using unsigned_less[of "mPitchShiftI st"] by simp
  have pe: "mPitchShift st = real (unat (mPitchShiftI st)) / 2 ^ MixerFracBits E"
    using ps by (simp add: pitch_inv_def)
  have "\<forall>b \<in> set (fold (remap_bin (MixerFracBits E) (mPitchShiftI st) (mPitchShift st)
                         (mAnalysisBuffer st))
                       [0..<unat bc] (fill (mSynthesisBuffer st) FrequencyBin0)).
          \<bar>FreqBin b\<bar> \<le> 131585"
  proof (rule fold_inv_set[where P = "\<lambda>syn. \<forall>b \<in> set syn. \<bar>FreqBin b\<bar> \<le> 131585"])
    show "\<forall>b \<in> set (fill (mSynthesisBuffer st) FrequencyBin0). \<bar>FreqBin b\<bar> \<le> 131585"
      by (simp add: fill_replicate FrequencyBin0_def)
  next
    fix k and syn :: "FrequencyBin list"
    assume k: "k \<in> set [0..<unat bc]" and syn: "\<forall>b \<in> set syn. \<bar>FreqBin b\<bar> \<le> 131585"
    have "k < unat bc" using k by simp
    hence kb: "k < min 513 ((513 * 2 ^ MixerFracBits E - 2 ^ MixerFracBits E div 2 - 1)
                             div unat (mPitchShiftI st) + 1)"
      by (simp only: unat_bin_count[OF fb(2) bc])
    hence "k < 513" by (rule less_le_trans) (rule min.cobounded1)
    hence "k < length (mAnalysisBuffer st)" by (simp add: an(2) StftHalfSize_def StftSize_def)
    hence a: "\<bar>FreqBin (mAnalysisBuffer st ! k)\<bar> \<le> real k + 2"
      using an(1) by (simp add: freq_inv_def)
    have s: "k * unat (mPitchShiftI st) + 2 ^ MixerFracBits E div 2 < 513 * 2 ^ MixerFracBits E"
      by (rule scan_product_bound[OF kb p0])
    have "\<bar>FreqBin (mAnalysisBuffer st ! k) * mPitchShift st\<bar> \<le> 131585"
      unfolding pe by (rule scanned_frequency_bound[OF fb(1) p32 s a])
    thus "\<forall>b \<in> set (remap_bin (MixerFracBits E) (mPitchShiftI st) (mPitchShift st)
                        (mAnalysisBuffer st) k syn). \<bar>FreqBin b\<bar> \<le> 131585"
      using syn by (rule remap_bin_freq_bound)
  qed
  thus ?thesis by (simp add: st')
qed

text \<open>The resynthesis keeps every accumulated phase within the bound.\<close>

lemma synthesize_bin_phase_inv:
  assumes p: "phase_inv st"
    and f: "\<forall>b \<in> set (mSynthesisBuffer st). \<bar>FreqBin b\<bar> \<le> 131585"
    and l: "length (mSumPhase st) \<le> length (mSynthesisBuffer st)"
  shows "phase_inv (synthesize_bin k st)"
proof (cases "k < length (mSumPhase st)")
  case False
  hence "length (mSumPhase st) \<le> k" by simp
  hence "mSumPhase (synthesize_bin k st) = mSumPhase st"
    unfolding synthesize_bin_sum_phase by (rule list_update_beyond)
  thus ?thesis using p by (simp add: phase_inv_def)
next
  case True
  let ?v = "wrap_phase (dadd (mSumPhase st ! k)
                          (dmul (FreqBin (mSynthesisBuffer st ! k)) expected_cycles_d))"
  have "mSumPhase st ! k \<in> set (mSumPhase st)" using True by simp
  hence s: "\<bar>mSumPhase st ! k\<bar> \<le> phase_bound" using p by (simp add: phase_inv_def)
  have "mSynthesisBuffer st ! k \<in> set (mSynthesisBuffer st)" using True l by simp
  hence "\<bar>FreqBin (mSynthesisBuffer st ! k)\<bar> \<le> 131585" using f by blast
  hence v: "\<bar>?v\<bar> \<le> phase_bound" by (rule wrap_step_bound[OF s])
  show ?thesis unfolding phase_inv_def synthesize_bin_sum_phase
  proof
    fix x assume "x \<in> set ((mSumPhase st)[k := ?v])"
    hence "x = ?v \<or> x \<in> set (mSumPhase st)"
      using set_update_subset_insert[of "mSumPhase st" k ?v] by auto
    thus "\<bar>x\<bar> \<le> phase_bound" using v p by (auto simp: phase_inv_def)
  qed
qed

text \<open>
  The quotient that \<^verbatim>\<open>double2int\<close> converts is far inside the range of \<^verbatim>\<open>int\<close>.
\<close>

lemma synthesize_quotient_in_range:
  assumes p: "phase_inv st"
    and f: "\<forall>b \<in> set (mSynthesisBuffer st). \<bar>FreqBin b\<bar> \<le> 131585"
    and k: "k < length (mSumPhase st)" "k < length (mSynthesisBuffer st)"
  shows "\<bar>dmul (dadd (mSumPhase st ! k)
                     (dmul (FreqBin (mSynthesisBuffer st ! k)) expected_cycles_d)) inv_pi_d\<bar>
         \<le> 87727"
proof -
  have "mSumPhase st ! k \<in> set (mSumPhase st)" using k(1) by simp
  hence "\<bar>mSumPhase st ! k\<bar> \<le> phase_bound" using p by (simp add: phase_inv_def)
  hence s: "\<bar>mSumPhase st ! k\<bar> \<le> 4" using phase_bound_le_4 by linarith
  have "mSynthesisBuffer st ! k \<in> set (mSynthesisBuffer st)" using k(2) by simp
  hence "\<bar>FreqBin (mSynthesisBuffer st ! k)\<bar> \<le> 131585" using f by blast
  hence "\<bar>dadd (mSumPhase st ! k)
              (dmul (FreqBin (mSynthesisBuffer st ! k)) expected_cycles_d)\<bar> \<le> 263176"
    by (rule advanced_phase_bound[OF s])
  thus ?thesis by (rule half_turns_bound(1))
qed

lemma synthesize_phase_inv:
  assumes p: "phase_inv st"
    and f: "\<forall>b \<in> set (mSynthesisBuffer st). \<bar>FreqBin b\<bar> \<le> 131585"
    and l: "length (mSumPhase st) \<le> length (mSynthesisBuffer st)"
  shows "phase_inv (synthesize st)"
proof -
  let ?P = "\<lambda>s. phase_inv s \<and> (\<forall>b \<in> set (mSynthesisBuffer s). \<bar>FreqBin b\<bar> \<le> 131585) \<and>
                 length (mSumPhase s) \<le> length (mSynthesisBuffer s)"
  have "?P (fold synthesize_bin [0..<StftHalfSize + 1] st)"
  proof (rule fold_inv[where P = ?P])
    show "?P st" using p f l by simp
  next
    fix k s assume a: "?P s"
    hence "phase_inv (synthesize_bin k s)" by (intro synthesize_bin_phase_inv) simp_all
    moreover have "length (mSumPhase (synthesize_bin k s)) = length (mSumPhase s)"
      by (simp add: synthesize_bin_sum_phase)
    ultimately show "?P (synthesize_bin k s)" using a by simp
  qed
  thus ?thesis by (simp add: synthesize_def Let_def phase_inv_def)
qed

lemma synthesize_length: "length (mSumPhase (synthesize st)) = length (mSumPhase st)"
proof -
  have "length (mSumPhase (fold synthesize_bin [0..<StftHalfSize + 1] st)) = length (mSumPhase st)"
    by (rule fold_length) (simp add: synthesize_bin_sum_phase)
  thus ?thesis by (simp add: synthesize_def Let_def)
qed

lemma hop_phase_run_inv:
  assumes fb: "16 \<le> MixerFracBits E" "MixerFracBits E \<le> 30"
    and i: "phase_run_inv E st" and h: "hop E st = Some st'"
  shows "phase_run_inv E st'"
proof -
  define stw where "stw = (window_input st)\<lparr>mFftBuffer := forward_fft E (mFftBuffer (window_input st))\<rparr>"
  define sta where "sta = analyze stw"
  from h obtain st1 where r: "remap E sta = Some st1"
    and s: "st' = copy_out (overlap_add ((synthesize st1)\<lparr>mFftBuffer := inverse_fft E (mFftBuffer (synthesize st1))\<rparr>))"
    by (auto simp: hop_def hop_spectral_def Let_def sta_def stw_def split: option.splits)
  have w: "spectral_wf st" "freq_inv st" "pitch_inv E st" "phase_inv st"
    using i by (simp_all add: phase_run_inv_def)
  have "freq_inv stw" using w(2) by (simp add: freq_inv_def stw_def)
  hence fa: "freq_inv sta" unfolding sta_def by (rule analyze_freq_inv)
  have la: "length (mAnalysisBuffer sta) = StftHalfSize + 1"
    using w(1) by (simp add: sta_def analyze_length stw_def spectral_wf_def)
  have pa: "pitch_inv E sta" using w(3) by (simp add: pitch_inv_def sta_def stw_def)
  have f1: "\<forall>b \<in> set (mSynthesisBuffer st1). \<bar>FreqBin b\<bar> \<le> 131585"
    by (rule remap_freq_bound[OF fb r fa la pa])
  have l1: "length (mSynthesisBuffer st1) = StftHalfSize + 1"
    using remap_length[OF r] w(1) by (simp add: sta_def stw_def spectral_wf_def)
  have m1: "mSumPhase st1 = mSumPhase st" using remap_frame(7)[OF r] by (simp add: sta_def stw_def)
  have a1: "mAnalysisBuffer st1 = mAnalysisBuffer sta" by (rule remap_frame(10)[OF r])
  have p1: "mPitchShift st1 = mPitchShift st" "mPitchShiftI st1 = mPitchShiftI st"
    using remap_frame(3,4)[OF r] by (simp_all add: sta_def stw_def)
  have "phase_inv st1" using w(4) by (simp add: phase_inv_def m1)
  moreover have "length (mSumPhase st1) \<le> length (mSynthesisBuffer st1)"
    using w(1) by (simp add: m1 l1 spectral_wf_def)
  ultimately have ph: "phase_inv (synthesize st1)" by (intro synthesize_phase_inv f1)
  have "spectral_wf st'"
    using w(1) by (simp add: s spectral_wf_def a1 la l1 synthesize_length m1)
  moreover have "freq_inv st'" using fa by (simp add: s freq_inv_def a1)
  moreover have "pitch_inv E st'" using w(3) by (simp add: s pitch_inv_def p1)
  moreover have "phase_inv st'" using ph by (simp add: s phase_inv_def)
  ultimately show ?thesis by (simp add: phase_run_inv_def)
qed

lemma process_loop_phase_run_inv:
  assumes fb: "16 \<le> MixerFracBits E" "MixerFracBits E \<le> 30"
    and i: "phase_run_inv E st" and l: "process_loop E n inp base st = Some st'"
  shows "phase_run_inv E st'"
proof (rule process_loop_invariant[where P = "phase_run_inv E", OF _ _ _ i l])
  show "\<And>inp base todo st. phase_run_inv E st \<Longrightarrow> phase_run_inv E (framer_chunk inp base todo st)"
    by (simp add: phase_run_inv_def spectral_wf_def freq_inv_def pitch_inv_def phase_inv_def)
  show "\<And>st p. phase_run_inv E st \<Longrightarrow> phase_run_inv E (st\<lparr>mCount := 0, mPos := p\<rparr>)"
    by (simp add: phase_run_inv_def spectral_wf_def freq_inv_def pitch_inv_def phase_inv_def)
  show "\<And>st st'. phase_run_inv E st \<Longrightarrow> hop E st = Some st' \<Longrightarrow> phase_run_inv E st'"
    by (rule hop_phase_run_inv[OF fb])
qed

lemma phase_bound_nonneg: "0 \<le> phase_bound"
  by (simp add: phase_bound_def)

lemma deviceUpdate_phase_run_inv:
  assumes "MixerFracBits E \<le> 30" "spectral_wf st"
  shows "phase_run_inv E (deviceUpdate E st)"
proof -
  have "spectral_wf (deviceUpdate E st)"
    using assms(2) by (simp add: spectral_wf_def deviceUpdate_def fill_replicate)
  moreover have "freq_inv (deviceUpdate E st)"
    by (simp add: freq_inv_def deviceUpdate_def fill_replicate FrequencyBin0_def)
  moreover have "pitch_inv E (deviceUpdate E st)"
    by (simp add: pitch_inv_def deviceUpdate_def unat_ucast_One[OF assms(1)])
  moreover have "phase_inv (deviceUpdate E st)"
    using phase_bound_nonneg by (simp add: phase_inv_def deviceUpdate_def fill_replicate)
  ultimately show ?thesis by (simp add: phase_run_inv_def)
qed

lemma update_phase_run_inv:
  assumes "MixerFracBits E \<le> 30" "phase_run_inv E st"
  shows "phase_run_inv E (update E slot props target st)"
proof -
  have "mAnalysisBuffer (update E slot props target st) = mAnalysisBuffer st"
    "mSynthesisBuffer (update E slot props target st) = mSynthesisBuffer st"
    "mSumPhase (update E slot props target st) = mSumPhase st"
    by (simp_all add: update_def Let_def)
  moreover have "pitch_inv E (update E slot props target st)"
    unfolding pitch_inv_def by (rule update_pitch_exact[OF assms(1)])
  ultimately show ?thesis
    using assms(2) by (simp add: phase_run_inv_def spectral_wf_def freq_inv_def phase_inv_def)
qed

lemma exec_phase_run_inv:
  assumes fb: "16 \<le> MixerFracBits E" "MixerFracBits E \<le> 30"
    and i: "phase_run_inv E st" and e: "exec E c st = Some st'"
  shows "phase_run_inv E st'"
proof (cases c)
  case DeviceUpdate
  have "spectral_wf st" using i by (simp add: phase_run_inv_def)
  thus ?thesis using e DeviceUpdate deviceUpdate_phase_run_inv[OF fb(2)] by auto
next
  case (Update slot props target)
  thus ?thesis using e update_phase_run_inv[OF fb(2) i] by auto
next
  case (Process n ins outs)
  with e obtain r where r: "process E n ins outs st = Some r" and s: "st' = fst r"
    by auto
  from process_Some[OF r] obtain st1 gains where l: "process_loop E n (ins ! 0) 0 st = Some st1"
    and f: "fst r = st1\<lparr>mCurrentGains := gains\<rparr>" by blast
  have "phase_run_inv E st1" by (rule process_loop_phase_run_inv[OF fb i l])
  thus ?thesis
    by (simp add: s f phase_run_inv_def spectral_wf_def freq_inv_def pitch_inv_def phase_inv_def)
qed

lemma run_phase_run_inv:
  assumes fb: "16 \<le> MixerFracBits E" "MixerFracBits E \<le> 30"
    and i: "phase_run_inv E st" and r: "run E cs st = Some st'"
  shows "phase_run_inv E st'"
  by (rule run_invariant[where P = "phase_run_inv E", OF exec_phase_run_inv[OF fb] i r])

subsection \<open>C8: process reads the first input line only\<close>

lemma copy_n_Suc:
  "copy_n src s (Suc n) dst d = (copy_n src s n dst d)[d + n := src ! (s + n)]"
  by (simp add: copy_n_def)

lemma copy_n_0 [simp]: "copy_n src s 0 dst d = dst"
  by (simp add: copy_n_def)

lemma copy_n_cong:
  "(\<And>i. i < n \<Longrightarrow> src ! (s + i) = src' ! (s + i)) \<Longrightarrow> copy_n src s n dst d = copy_n src' s n dst d"
  by (induction n) (simp_all add: copy_n_Suc)

lemma framer_chunk_cong:
  assumes "\<And>i. i < n \<Longrightarrow> inp ! i = inp' ! i" "base + todo \<le> n"
  shows "framer_chunk inp base todo st = framer_chunk inp' base todo st"
proof -
  have "copy_n inp base todo (mFIFO st) (mPos st + mCount st)
      = copy_n inp' base todo (mFIFO st) (mPos st + mCount st)"
    using assms by (intro copy_n_cong) simp
  thus ?thesis by (simp add: framer_chunk_def Let_def)
qed

lemma process_loop_cong:
  "(\<And>i. i < n \<Longrightarrow> inp ! i = inp' ! i) \<Longrightarrow> process_loop E n inp base st = process_loop E n inp' base st"
proof (induction E n inp base st rule: process_loop.induct)
  case (1 E n inp base st)
  let ?todo = "minz (size_t_sub StftStep (mCount st)) (n - base)"
  let ?st1 = "framer_chunk inp base ?todo st"
  let ?st2 = "?st1\<lparr>mCount := 0\<rparr>"
  let ?st3 = "?st2\<lparr>mPos := (mPos ?st2 + StftStep) AND (StftSize - 1)\<rparr>"
  show ?case
  proof (cases "base < n")
    case False
    thus ?thesis by (simp add: process_loop.simps)
  next
    case True
    have "base + ?todo \<le> n" using todo_le[of "size_t_sub StftStep (mCount st)" "n - base"] True
      by linarith
    hence c: "framer_chunk inp' base ?todo st = ?st1"
      using framer_chunk_cong[of n inp inp' base ?todo st] "1.prems" by simp
    show ?thesis
    proof (cases "mCount ?st1 < StftStep")
      case lt: True
      thus ?thesis using True c
        by (simp add: process_loop.simps[of E n inp base st] process_loop.simps[of E n inp' base st] Let_def)
    next
      case ge: False
      show ?thesis
      proof (cases "hop E ?st3")
        case None
        thus ?thesis using True ge c
          by (simp add: process_loop.simps[of E n inp base st] process_loop.simps[of E n inp' base st] Let_def)
      next
        case (Some st4)
        have "process_loop E n inp (base + ?todo) st4 = process_loop E n inp' (base + ?todo) st4"
          by (rule "1.IH"[OF True refl refl refl ge refl refl Some "1.prems"])
        thus ?thesis using True ge c Some
          by (simp add: process_loop.simps[of E n inp base st] process_loop.simps[of E n inp' base st] Let_def)
      qed
    qed
  qed
qed

text \<open>
  C8. \<^verbatim>\<open>process\<close> is a function of the state, \<^verbatim>\<open>samplesToDo\<close>, the output buffer and the
  first \<^verbatim>\<open>samplesToDo\<close> samples of the first input line: two calls that agree on
  these give the same final state and the same output, whatever the other input
  lines hold (and however many there are).
\<close>

theorem process_first_line_only:
  assumes "\<forall>i < samplesToDo. (samplesIn ! 0) ! i = (samplesIn' ! 0) ! i"
  shows "process E samplesToDo samplesIn samplesOut st
           = process E samplesToDo samplesIn' samplesOut st"
proof -
  have "process_loop E samplesToDo (samplesIn ! 0) 0 st
      = process_loop E samplesToDo (samplesIn' ! 0) 0 st"
    using assms by (intro process_loop_cong) simp
  thus ?thesis by (simp add: process_def)
qed

theorem process_first_line_only_witness:
  "([[1, 2], [3, 4]] ! 0) ! 0 = ([[1, 2, 7], [5, 6], [8, 9 :: real]] ! 0) ! 0 \<and>
   ([[1, 2], [3, 4]] ! 0) ! 1 = ([[1, 2, 7], [5, 6], [8, 9 :: real]] ! 0) ! 1 \<and>
   process example_externals 2 [[1, 2], [3, 4]] [[]] example_state
     = process example_externals 2 [[1, 2, 7], [5, 6], [8, 9]] [[]] example_state"
proof -
  have h: "\<forall>i < 2. ([[1, 2], [3, 4]] ! 0) ! i = ([[1, 2, 7], [5, 6], [8, 9 :: real]] ! 0) ! i"
    by (simp add: less_Suc_eq numeral_2_eq_2)
  show ?thesis
    using process_first_line_only[OF h, of example_externals "[[]]" example_state] by simp
qed


subsection \<open>C3: the analyzer\<close>

lemma double2int_minus: "double2int (- x) = - double2int x"
  by (auto simp: double2int_def ceiling_def)

lemma c_rem_minus: "c_rem (- q) 2 = - c_rem q 2"
  by (simp add: c_rem_def sgn_minus)

lemma c_round_minus: "c_round (- x) = - c_round x"
  by (auto simp: c_round_def ceiling_def algebra_simps)

lemma c_rem_nonneg: "0 \<le> q \<Longrightarrow> c_rem q 2 = q mod 2"
  by (cases "q = 0") (simp_all add: c_rem_def sgn_if)

lemma even_quotient_nonneg:
  assumes "0 \<le> x"
  shows "double2int x + c_rem (double2int x) 2 = 2 * c_round (x / 2)"
proof -
  let ?q = "\<lfloor>x\<rfloor>"
  have q: "0 \<le> ?q" using assms by simp
  have "c_round (x / 2) = \<lfloor>(x + 1) / real_of_int 2\<rfloor>"
    using assms by (simp add: c_round_def add_divide_distrib)
  also have "\<dots> = \<lfloor>x + 1\<rfloor> div 2" by (rule floor_divide_real_eq_div) simp
  also have "\<dots> = (?q + 1) div 2" by simp
  finally have r: "c_round (x / 2) = (?q + 1) div 2" .
  have "c_rem ?q 2 = ?q mod 2" by (rule c_rem_nonneg[OF q])
  moreover have "?q + ?q mod 2 = 2 * ((?q + 1) div 2)" by presburger
  ultimately show ?thesis using assms by (simp add: double2int_def r)
qed

lemma even_quotient: "double2int x + c_rem (double2int x) 2 = 2 * c_round (x / 2)"
proof (cases "0 \<le> x")
  case True
  thus ?thesis by (rule even_quotient_nonneg)
next
  case False
  hence "0 \<le> - x" by simp
  from even_quotient_nonneg[OF this]
  have "- double2int x + - c_rem (double2int x) 2 = 2 * - c_round (x / 2)"
    using c_round_minus[of "x / 2"] by (simp only: double2int_minus c_rem_minus) simp
  thus ?thesis by linarith
qed

lemma wrap_is_fold_unit:
  "x - real_of_int (double2int x + c_rem (double2int x) 2) = fold_unit x"
  by (simp only: even_quotient fold_unit_def of_int_mult of_int_numeral)

lemma fold_unit_bound: "- 1 \<le> fold_unit x \<and> fold_unit x \<le> 1"
  using wrap_unit_bound[of x] by (simp only: wrap_is_fold_unit) linarith


lemma analyze_bin_mLastPhase:
  "mLastPhase (analyze_bin k st) = (mLastPhase st)[k := Arg (mFftBuffer st ! k)]"
  by (simp add: analyze_bin_def Let_def)

lemma analyze_bin_mAnalysisBuffer:
  "mAnalysisBuffer (analyze_bin k st)
     = (mAnalysisBuffer st)[k := analysis_spec k (mFftBuffer st ! k) (mLastPhase st ! k)]"
proof -
  let ?x = "((Arg (mFftBuffer st ! k) - mLastPhase st ! k)
              - real (k mod OversampleFactor) * expected_cycles) * inv_pi"
  have x: "?x = ((Arg (mFftBuffer st ! k) - mLastPhase st ! k)
              - real (k mod OversampleFactor) * (2 * pi / real OversampleFactor)) / pi"
    by (simp add: expected_cycles_def inv_pi_def)
  have "(?x - real_of_int (double2int ?x + c_rem (double2int ?x) 2)) * (0.5 * real OversampleFactor)
      = 0.5 * real OversampleFactor * fold_unit ?x"
    by (simp only: wrap_is_fold_unit mult.commute)
  thus ?thesis
    by (simp only: analyze_bin_def Let_def analysis_spec_def x) simp
qed

lemma analyze_loop_mLastPhase_above:
  "n \<le> k \<Longrightarrow> mLastPhase (fold analyze_bin [0..<n] st) ! k = mLastPhase st ! k"
  by (induction n) (simp_all add: analyze_bin_mLastPhase)

lemma analyze_loop_mFftBuffer: "mFftBuffer (fold analyze_bin ks st) = mFftBuffer st"
  by (rule fold_frame) simp

lemma analyze_loop_lengths:
  "length (mLastPhase (fold analyze_bin ks st)) = length (mLastPhase st)"
  "length (mAnalysisBuffer (fold analyze_bin ks st)) = length (mAnalysisBuffer st)"
  by (rule fold_length, simp add: analyze_bin_mLastPhase analyze_bin_mAnalysisBuffer)+

lemma analyze_loop_bin:
  assumes "k < n"
  shows "k < length (mLastPhase st) \<Longrightarrow>
           mLastPhase (fold analyze_bin [0..<n] st) ! k = Arg (mFftBuffer st ! k)"
    and "k < length (mAnalysisBuffer st) \<Longrightarrow>
           mAnalysisBuffer (fold analyze_bin [0..<n] st) ! k
             = analysis_spec k (mFftBuffer st ! k) (mLastPhase st ! k)"
  using assms
proof (induction n)
  case 0
  { case 1 thus ?case by simp }
  { case 2 thus ?case by simp }
next
  case (Suc n)
  let ?s = "fold analyze_bin [0..<n] st"
  { case 1
    show ?case
    proof (cases "k = n")
      case True
      thus ?thesis using 1
        by (simp add: analyze_bin_mLastPhase analyze_loop_lengths analyze_loop_mFftBuffer)
    next
      case False
      hence "k < n" using 1 by simp
      thus ?thesis using False 1 Suc.IH(1)
        by (simp add: analyze_bin_mLastPhase)
    qed }
  { case 2
    show ?case
    proof (cases "k = n")
      case True
      thus ?thesis using 2
        by (simp add: analyze_bin_mAnalysisBuffer analyze_loop_lengths analyze_loop_mFftBuffer
              analyze_loop_mLastPhase_above)
    next
      case False
      hence "k < n" using 2 by simp
      thus ?thesis using False 2 Suc.IH(2)
        by (simp add: analyze_bin_mAnalysisBuffer)
    qed }
qed

lemma example_lengths:
  "length (mLastPhase example_state) = StftHalfSize + 1"
  "length (mAnalysisBuffer example_state) = StftHalfSize + 1"
  "length (mSynthesisBuffer example_state) = StftHalfSize + 1"
  "length (mSumPhase example_state) = StftHalfSize + 1"
  "length (mFIFO example_state) = StftSize"
  "length (mOutputAccum example_state) = StftSize"
  "length (mFftBuffer example_state) = StftSize"
  by (simp_all add: example_state_def StftHalfSize_def StftSize_def)

text \<open>
  C3. For every bin \<open>k\<close> up to \<open>StftHalfSize\<close>, the analysis loop takes the phase of the
  spectral coefficient, subtracts the last observed phase of the bin and the
  expected advance \<open>(k mod R) * (2 pi / R)\<close>, divides by \<open>pi\<close>, folds the quotient
  \<open>x\<close> to \<open>x - 2 * round (x / 2)\<close>, which is between \<open>-1\<close> and \<open>1\<close> for every real \<open>x\<close>,
  scales by \<open>0.5 * R\<close> and stores \<open>k\<close> plus the result as the frequency, next to
  the magnitude. The last observed phase of the bin becomes the measured phase
  itself, not the folded value.
\<close>

theorem analyzer_bin:
  assumes "k \<le> StftHalfSize"
    and "length (mLastPhase st) = StftHalfSize + 1"
    and "length (mAnalysisBuffer st) = StftHalfSize + 1"
  shows "mLastPhase (analyze st) ! k = Arg (mFftBuffer st ! k) \<and>
         Magnitude (mAnalysisBuffer (analyze st) ! k) = cmod (mFftBuffer st ! k) \<and>
         FreqBin (mAnalysisBuffer (analyze st) ! k)
           = real k + 0.5 * real OversampleFactor
               * fold_unit (((Arg (mFftBuffer st ! k) - mLastPhase st ! k)
                             - real (k mod OversampleFactor) * (2 * pi / real OversampleFactor)) / pi) \<and>
         (\<forall>x. - 1 \<le> fold_unit x \<and> fold_unit x \<le> 1)"
proof -
  have k: "k < StftHalfSize + 1" using assms(1) by simp
  have a: "mLastPhase (analyze st) ! k = Arg (mFftBuffer st ! k)"
    unfolding analyze_def using analyze_loop_bin(1)[OF k, of st] assms(2) k by simp
  have b: "mAnalysisBuffer (analyze st) ! k = analysis_spec k (mFftBuffer st ! k) (mLastPhase st ! k)"
    unfolding analyze_def using analyze_loop_bin(2)[OF k, of st] assms(3) k by simp
  show ?thesis using a fold_unit_bound
    by (simp only: b analysis_spec_def) simp
qed


theorem analyzer_bin_witness:
  "(1::nat) \<le> StftHalfSize \<and>
   length (mLastPhase (example_state\<lparr>mFftBuffer := (replicate 1024 0)[1 := \<i>]\<rparr>)) = StftHalfSize + 1 \<and>
   length (mAnalysisBuffer (example_state\<lparr>mFftBuffer := (replicate 1024 0)[1 := \<i>]\<rparr>)) = StftHalfSize + 1 \<and>
   mLastPhase (analyze (example_state\<lparr>mFftBuffer := (replicate 1024 0)[1 := \<i>]\<rparr>)) ! 1 = pi / 2 \<and>
   Magnitude (mAnalysisBuffer (analyze (example_state\<lparr>mFftBuffer := (replicate 1024 0)[1 := \<i>]\<rparr>)) ! 1) = 1 \<and>
   FreqBin (mAnalysisBuffer (analyze (example_state\<lparr>mFftBuffer := (replicate 1024 0)[1 := \<i>]\<rparr>)) ! 1) = 1"
proof -
  let ?st = "example_state\<lparr>mFftBuffer := (replicate 1024 0)[1 := \<i>]\<rparr>"
  have k: "(1::nat) \<le> StftHalfSize" by (simp add: StftHalfSize_def StftSize_def)
  have l: "length (mLastPhase ?st) = StftHalfSize + 1" "length (mAnalysisBuffer ?st) = StftHalfSize + 1"
    by (simp_all add: example_lengths)
  have z: "mFftBuffer ?st ! 1 = \<i>" "mLastPhase ?st ! 1 = 0"
    by (simp_all add: example_state_def)
  have f: "fold_unit 0 = 0" by (simp add: fold_unit_def c_round_def)
  note t = analyzer_bin[OF k l]
  show ?thesis using k l t
    by (simp only: z) (simp add: OversampleFactor_def f del: all_simps)
qed


subsection \<open>C5: the framer, sample by sample\<close>

lemma length_copy_n [simp]: "length (copy_n src s n dst d) = length dst"
  by (induction n) (simp_all add: copy_n_Suc)

lemma fill_n_Suc: "fill_n dst d (Suc n) v = (fill_n dst d n v)[d + n := v]"
  by (simp add: fill_n_def)

lemma fill_n_0 [simp]: "fill_n dst d 0 v = dst"
  by (simp add: fill_n_def)

lemma length_fill_n [simp]: "length (fill_n dst d n v) = length dst"
  by (induction n) (simp_all add: fill_n_Suc)

lemma copy_n_nth:
  "i < length dst \<Longrightarrow>
   copy_n src s n dst d ! i = (if d \<le> i \<and> i < d + n then src ! (s + (i - d)) else dst ! i)"
proof (induction n)
  case 0
  thus ?case by auto
next
  case (Suc n)
  show ?case
  proof (cases "i = d + n")
    case True
    thus ?thesis using Suc.prems by (simp add: copy_n_Suc)
  next
    case False
    thus ?thesis using Suc by (auto simp: copy_n_Suc)
  qed
qed

lemma copy_n_nth_outside:
  "i < d \<or> d + n \<le> i \<Longrightarrow> copy_n src s n dst d ! i = dst ! i"
  by (induction n) (auto simp: copy_n_Suc)

lemma fill_n_nth:
  "i < length dst \<Longrightarrow> fill_n dst d n v ! i = (if d \<le> i \<and> i < d + n then v else dst ! i)"
proof (induction n)
  case 0
  thus ?case by auto
next
  case (Suc n)
  show ?case
  proof (cases "i = d + n")
    case True
    thus ?thesis using Suc.prems by (simp add: fill_n_Suc)
  next
    case False
    thus ?thesis using Suc by (auto simp: fill_n_Suc)
  qed
qed

lemma copy_n_slices:
  assumes "p + n \<le> length dst" "p + n \<le> length src"
  shows "copy_n src p n dst p = take p dst @ take n (drop p src) @ drop (p + n) dst"
proof (rule nth_equalityI)
  show "length (copy_n src p n dst p) = length (take p dst @ take n (drop p src) @ drop (p + n) dst)"
    using assms by simp
next
  fix i assume "i < length (copy_n src p n dst p)"
  hence i: "i < length dst" by simp
  show "copy_n src p n dst p ! i = (take p dst @ take n (drop p src) @ drop (p + n) dst) ! i"
    using i assms by (auto simp: copy_n_nth nth_append)
qed

lemma fill_n_slices:
  assumes "p + n \<le> length dst"
  shows "fill_n dst p n v = take p dst @ replicate n v @ drop (p + n) dst"
proof (rule nth_equalityI)
  show "length (fill_n dst p n v) = length (take p dst @ replicate n v @ drop (p + n) dst)"
    using assms by simp
next
  fix i assume "i < length (fill_n dst p n v)"
  hence i: "i < length dst" by simp
  show "fill_n dst p n v ! i = (take p dst @ replicate n v @ drop (p + n) dst) ! i"
    using i assms by (auto simp: fill_n_nth nth_append)
qed

lemma copy_out_spec:
  assumes "length (mFIFO st) = StftSize" "length (mOutputAccum st) = StftSize"
    and "mPos st + StftStep \<le> StftSize"
  shows "copy_out st = spec_cycle_end st"
  using assms by (simp add: copy_out_def spec_cycle_end_def Let_def copy_n_slices fill_n_slices)


lemma spec_samples_append:
  "spec_samples E inp (xs @ ys) st =
     (case spec_samples E inp xs st of None \<Rightarrow> None | Some st' \<Rightarrow> spec_samples E inp ys st')"
  by (induction xs arbitrary: st) (simp_all split: option.splits)

lemma framer_chunk_0: "framer_chunk inp base 0 st = st"
  by (simp add: framer_chunk_def Let_def)

lemma framer_chunk_Suc:
  "framer_chunk inp base (Suc m) st =
     (let s = framer_chunk inp base m st;
          p = mPos s + mCount s
      in s\<lparr>mBufferOut := (mBufferOut s)[base + m := mFIFO s ! p],
           mFIFO := (mFIFO s)[p := inp ! (base + m)],
           mCount := mCount s + 1\<rparr>)"
proof -
  have "copy_n inp base m (mFIFO st) (mPos st + mCount st) ! (mPos st + mCount st + m)
      = mFIFO st ! (mPos st + mCount st + m)"
    by (rule copy_n_nth_outside) simp
  thus ?thesis by (simp add: framer_chunk_def Let_def copy_n_Suc add.assoc)
qed

lemma spec_sample_no_cycle:
  assumes "mCount st + 1 \<noteq> StftStep"
  shows "spec_sample E x i st
           = Some (st\<lparr>mBufferOut := (mBufferOut st)[i := mFIFO st ! (mPos st + mCount st)],
                      mFIFO := (mFIFO st)[mPos st + mCount st := x],
                      mCount := mCount st + 1\<rparr>)"
  using assms by (simp add: spec_sample_def Let_def)

lemma spec_sample_cycle:
  assumes "mCount st + 1 = StftStep"
  shows "spec_sample E x i st
           = map_option spec_cycle_end
               (hop_spectral E
                  (st\<lparr>mBufferOut := (mBufferOut st)[i := mFIFO st ! (mPos st + mCount st)],
                      mFIFO := (mFIFO st)[mPos st + mCount st := x],
                      mCount := 0,
                      mPos := (mPos st + StftStep) mod StftSize\<rparr>))"
  using assms by (simp add: spec_sample_def Let_def)

lemma spec_samples_chunk:
  "mCount st + m < StftStep \<Longrightarrow>
   spec_samples E inp [base..<base + m] st = Some (framer_chunk inp base m st)"
proof (induction m)
  case 0
  thus ?case by (simp add: framer_chunk_0)
next
  case (Suc m)
  have c: "mCount (framer_chunk inp base m st) + 1 \<noteq> StftStep" using Suc.prems by simp
  have "spec_samples E inp [base..<base + m] st = Some (framer_chunk inp base m st)"
    using Suc by simp
  thus ?case
    by (simp add: spec_samples_append framer_chunk_Suc Let_def spec_sample_no_cycle[OF c])
qed

lemma spec_samples_chunk_cycle:
  assumes "mCount st + Suc m = StftStep"
  shows "spec_samples E inp [base..<base + Suc m] st
           = map_option spec_cycle_end
               (hop_spectral E ((framer_chunk inp base (Suc m) st)
                   \<lparr>mCount := 0, mPos := (mPos st + StftStep) mod StftSize\<rparr>))"
proof -
  have a: "spec_samples E inp [base..<base + m] st = Some (framer_chunk inp base m st)"
    using assms by (intro spec_samples_chunk) simp
  have c: "mCount (framer_chunk inp base m st) + 1 = StftStep" using assms by simp
  show ?thesis using a
    by (simp add: spec_samples_append framer_chunk_Suc Let_def spec_sample_cycle[OF c]
             split: option.splits)
qed


lemma length_fold_update:
  "length (fold (\<lambda>i acc. acc[g i := h i acc]) ks xs) = length xs"
  by (induction ks arbitrary: xs) simp_all

lemma overlap_add_length: "length (mOutputAccum (overlap_add st)) = length (mOutputAccum st)"
  by (simp add: overlap_add_def Let_def length_fold_update)

lemma hop_spectral_length_mOutputAccum:
  assumes "hop_spectral E st = Some st'"
  shows "length (mOutputAccum st') = length (mOutputAccum st)"
proof -
  from assms obtain st1 where r: "remap E (analyze ((window_input st)\<lparr>mFftBuffer := forward_fft E (mFftBuffer (window_input st))\<rparr>)) = Some st1"
    and s: "st' = overlap_add ((synthesize st1)\<lparr>mFftBuffer := inverse_fft E (mFftBuffer (synthesize st1))\<rparr>)"
    by (auto simp: hop_spectral_def Let_def split: option.splits)
  have "mOutputAccum st1 = mOutputAccum st" using remap_frame(8)[OF r] by simp
  thus ?thesis by (simp add: s overlap_add_length)
qed

lemma hop_is_spec_cycle:
  assumes "length (mFIFO st) = StftSize" "length (mOutputAccum st) = StftSize"
    and "mPos st + StftStep \<le> StftSize"
  shows "hop E st = map_option spec_cycle_end (hop_spectral E st)"
proof (cases "hop_spectral E st")
  case None
  thus ?thesis by (simp add: hop_def)
next
  case (Some st')
  have "copy_out st' = spec_cycle_end st'"
    using assms hop_spectral_frame(2,5)[OF Some] hop_spectral_length_mOutputAccum[OF Some]
    by (intro copy_out_spec) simp_all
  thus ?thesis using Some by (simp add: hop_def)
qed

lemma hop_framer_wf:
  assumes "framer_wf st" "hop E st = Some st'"
  shows "framer_wf st'"
proof -
  from assms(2) obtain s where s: "hop_spectral E st = Some s" and c: "st' = copy_out s"
    by (auto simp: hop_def)
  show ?thesis
    using assms(1) hop_spectral_frame(1,2,5)[OF s] hop_spectral_length_mOutputAccum[OF s]
    by (simp add: c framer_wf_def framer_inv_def copy_out_def Let_def)
qed

lemma steps_pos: "0 < StftStep" "StftStep \<le> StftSize"
  by (simp_all add: StftStep_def StftSize_def OversampleFactor_def)

text \<open>
  C5. On a state that satisfies the framer invariant, with a ring buffer and an
  output accumulator of \<open>StftSize\<close> samples, the loop of \<^verbatim>\<open>process\<close>, which moves
  \<open>todo\<close> samples at a time, does to the state (the emitted samples in
  \<^verbatim>\<open>mBufferOut\<close> included) what the sample-by-sample framer of the specification
  does for the samples \<open>base\<close> to \<open>samplesToDo - 1\<close> of the first input line: emit,
  overwrite, count; at \<open>StftStep\<close> reset the counter, advance the cursor modulo
  \<open>StftSize\<close>, run one cycle, and end it by moving exactly \<open>StftStep\<close> accumulator
  samples at the cursor into the ring buffer and zeroing exactly those. Both have
  no result in the same cases.
\<close>

theorem framer_per_sample:
  "framer_wf st \<Longrightarrow> process_loop E n inp base st = spec_samples E inp [base..<n] st"
proof (induction E n inp base st rule: process_loop.induct)
  case (1 E n inp base st)
  let ?todo = "minz (size_t_sub StftStep (mCount st)) (n - base)"
  let ?st1 = "framer_chunk inp base ?todo st"
  let ?st2 = "?st1\<lparr>mCount := 0\<rparr>"
  let ?st3 = "?st2\<lparr>mPos := (mPos ?st2 + StftStep) AND (StftSize - 1)\<rparr>"
  have inv: "framer_inv st" and lf: "length (mFIFO st) = StftSize"
    and la: "length (mOutputAccum st) = StftSize"
    using "1.prems" by (simp_all add: framer_wf_def)
  have c: "mCount st < StftStep" using inv by (simp add: framer_inv_def)
  show ?case
  proof (cases "base < n")
    case False
    thus ?thesis by (simp add: process_loop.simps)
  next
    case True
    note td = todo_positive[OF True c]
    have "base + ?todo + (n - (base + ?todo)) = n" using td(2) True by linarith
    hence split: "[base..<n] = [base..<base + ?todo] @ [base + ?todo..<n]"
      using upt_add_eq_append[of base "base + ?todo" "n - (base + ?todo)"] by simp
    show ?thesis
    proof (cases "mCount ?st1 < StftStep")
      case lt: True
      hence "?todo < StftStep - mCount st" by simp
      hence "?todo = n - base" using c by (simp add: minz_def size_t_sub_def split: if_splits)
      hence e: "base + ?todo = n" using True by simp
      have "spec_samples E inp [base..<base + ?todo] st = Some ?st1"
        using lt by (intro spec_samples_chunk) simp
      hence "spec_samples E inp [base..<n] st = Some ?st1" by (simp only: e)
      thus ?thesis using True lt by (simp add: process_loop.simps[of E n inp base st] Let_def)
    next
      case ge: False
      hence full: "mCount st + ?todo = StftStep" using td(3) by simp
      obtain m where m: "?todo = Suc m" using td(1) by (cases ?todo) simp_all
      define s3 where "s3 = ?st3"
      have unfold: "process_loop E n inp base st
          = (case hop E s3 of None \<Rightarrow> None
             | Some x \<Rightarrow> process_loop E n inp (base + ?todo) x)"
        using True ge by (simp add: process_loop.simps[of E n inp base st] Let_def s3_def)
      have s3': "s3 = ?st1\<lparr>mCount := 0, mPos := (mPos st + StftStep) mod StftSize\<rparr>"
        by (simp add: s3_def mask_1023_Suc)
      have wf3: "framer_wf s3"
        using inv lf la advance_pos[of "mPos st"] steps_pos
        by (simp add: s3' framer_wf_def framer_inv_def framer_chunk_def Let_def)
      hence b: "mPos s3 + StftStep \<le> StftSize" "length (mFIFO s3) = StftSize"
        "length (mOutputAccum s3) = StftSize"
        using steps_pos by (simp_all only: framer_wf_def framer_inv_def) linarith
      have h: "hop E s3 = map_option spec_cycle_end (hop_spectral E s3)"
        by (rule hop_is_spec_cycle[OF b(2,3,1)])
      have "mCount st + Suc m = StftStep" using full by (simp only: m)
      hence "spec_samples E inp [base..<base + Suc m] st
              = map_option spec_cycle_end (hop_spectral E
                  ((framer_chunk inp base (Suc m) st)
                     \<lparr>mCount := 0, mPos := (mPos st + StftStep) mod StftSize\<rparr>))"
        by (rule spec_samples_chunk_cycle)
      hence cyc: "spec_samples E inp [base..<base + ?todo] st
              = map_option spec_cycle_end (hop_spectral E
                  (?st1\<lparr>mCount := 0, mPos := (mPos st + StftStep) mod StftSize\<rparr>))"
        unfolding m[symmetric] .
      have hs: "hop_spectral E (?st1\<lparr>mCount := 0, mPos := (mPos st + StftStep) mod StftSize\<rparr>)
                  = hop_spectral E s3"
        by (simp only: s3')
      have chunk: "spec_samples E inp [base..<base + ?todo] st = hop E s3"
        by (simp only: cyc hs h)
      have whole: "spec_samples E inp [base..<n] st
          = (case hop E s3 of None \<Rightarrow> None
             | Some x \<Rightarrow> spec_samples E inp [base + ?todo..<n] x)"
        by (subst split) (simp only: spec_samples_append chunk)
      show ?thesis
      proof (cases "hop E s3")
        case None
        thus ?thesis by (simp only: unfold whole option.case)
      next
        case (Some st4)
        have wf4: "framer_wf st4" by (rule hop_framer_wf[OF wf3 Some])
        have ih: "process_loop E n inp (base + ?todo) st4 = spec_samples E inp [base + ?todo..<n] st4"
          by (rule "1.IH"[OF True refl refl refl ge refl refl Some[unfolded s3_def] wf4])
        show ?thesis by (simp only: unfold whole Some option.case ih)
      qed
    qed
  qed
qed

theorem framer_per_sample_witness:
  "framer_wf example_state \<and>
   process_loop example_externals 300 (replicate 300 1) 0 example_state
     = spec_samples example_externals (replicate 300 1) [0..<300] example_state"
proof -
  have w: "framer_wf example_state"
    by (simp add: framer_wf_def framer_inv_def example_state_def StftStep_def StftSize_def
          OversampleFactor_def)
  show ?thesis
    by (rule conjI[OF w framer_per_sample[OF w]])
qed


subsection \<open>C2: what the remapping loop leaves in a synthesis bin\<close>

lemma remap_bin_merge:
  "remap_bin fb psI ps an k syn
     = syn[unat (bin_dest fb psI (word_of_nat k))
             := merge_bin ps (an ! k) (syn ! unat (bin_dest fb psI (word_of_nat k)))]"
proof (cases "unat (bin_dest fb psI (word_of_nat k)) < length syn")
  case True
  obtain m f where "syn ! unat (bin_dest fb psI (word_of_nat k)) = \<lparr>Magnitude = m, FreqBin = f\<rparr>"
    by (cases "syn ! unat (bin_dest fb psI (word_of_nat k))")
  thus ?thesis using True by (simp add: remap_bin_def Let_def merge_bin_def)
next
  case False
  hence "length syn \<le> unat (bin_dest fb psI (word_of_nat k))" by simp
  thus ?thesis by (simp add: remap_bin_def Let_def list_update_beyond)
qed

lemma length_remap_bin [simp]: "length (remap_bin fb psI ps an k syn) = length syn"
  by (simp add: remap_bin_merge)

lemma remap_loop_bin:
  "j < length syn \<Longrightarrow>
   fold (remap_bin fb psI ps an) ks syn ! j
     = fold (\<lambda>k. merge_bin ps (an ! k))
         (filter (\<lambda>k. unat (bin_dest fb psI (word_of_nat k)) = j) ks) (syn ! j)"
proof (induction ks arbitrary: syn)
  case Nil
  thus ?case by simp
next
  case (Cons k ks)
  have "j < length (remap_bin fb psI ps an k syn)" using Cons.prems by simp
  from Cons.IH[OF this] Cons.prems show ?case
    by (simp add: remap_bin_merge)
qed

lemma filter_interval:
  "filter (\<lambda>k. a \<le> k \<and> k < b) [0..<n] = [a..<min b n]"
proof (induction n)
  case 0
  thus ?case by simp
next
  case (Suc n)
  show ?case
  proof (cases "n < b")
    case True
    hence "min b n = n" "min b (Suc n) = Suc n" by simp_all
    thus ?thesis using Suc.IH True by (cases "a \<le> n") simp_all
  next
    case False
    hence "min b n = b" "min b (Suc n) = b" by simp_all
    thus ?thesis using Suc.IH False by simp
  qed
qed

lemma quarter_div: "((k::nat) * 16384 + 32768) div 65536 = (k + 2) div 4"
proof -
  have "k * 16384 + 32768 = 16384 * (k + 2)" by simp
  moreover have "(65536::nat) = 16384 * 4" by simp
  ultimately have "(k * 16384 + 32768) div 65536 = (16384 * (k + 2)) div (16384 * 4)"
    by (simp only:)
  also have "\<dots> = (k + 2) div 4" by (rule div_mult_mult1) simp
  finally show ?thesis .
qed

lemma quarter_sources:
  "filter (\<lambda>k. unat (bin_dest 16 16384 (word_of_nat k)) = 1) [0..<513] = [2, 3, 4, 5]"
proof -
  have "filter (\<lambda>k. unat (bin_dest 16 16384 (word_of_nat k)) = 1) [0..<513]
      = filter (\<lambda>k. 2 \<le> k \<and> k < 6) [0..<513]"
  proof (rule filter_cong[OF refl])
    fix k assume "k \<in> set [0..<513]"
    hence k: "k < 513" by simp
    have "((k + 2) div 4 = 1) = (2 \<le> k \<and> k < 6)" by arith
    thus "(unat (bin_dest 16 16384 (word_of_nat k)) = 1) = (2 \<le> k \<and> k < 6)"
      by (simp only: bin_dest_quarter[OF k] quarter_div)
  qed
  also have "\<dots> = [2..<min 6 513]" by (rule filter_interval)
  also have "\<dots> = [2, 3, 4, 5]" by code_simp
  finally show ?thesis .
qed

lemma merge_magnitude_sum:
  "Magnitude (fold (\<lambda>k. merge_bin ps (an ! k)) ks b)
     = Magnitude b + sum_list (map (\<lambda>k. Magnitude (an ! k)) ks)"
  by (induction ks arbitrary: b) (simp_all add: merge_bin_def)

text \<open>
  C2, on an example. The pitch ratio is 1/4 (16 fractional bits) and the analysis
  bins 2, 3, 4 have the magnitudes 3, 2, 4 and the frequencies 2, 3, 4; all other
  bins are zero. The analysis bins that map to synthesis bin 1 are 2, 3, 4 and 5,
  and bin 4 has the strictly largest magnitude of them. After the remapping loop,
  synthesis bin 1 holds the sum 9 of the magnitudes, and the frequency of analysis
  bin 2 times the ratio, 1/2, not that of bin 4 times the ratio, 1: the loop
  compares each magnitude with the sum accumulated so far, not with the largest
  magnitude so far.
\<close>

theorem remap_frequency_example:
  "filter (\<lambda>k. unat (bin_dest 16 16384 (word_of_nat k)) = 1) [0..<513] = [2, 3, 4, 5] \<and>
   Magnitude (example_analysis ! 2) < Magnitude (example_analysis ! 4) \<and>
   Magnitude (example_analysis ! 3) < Magnitude (example_analysis ! 4) \<and>
   Magnitude (example_analysis ! 5) < Magnitude (example_analysis ! 4) \<and>
   FreqBin (example_analysis ! 4) * (1 / 4) = 1 \<and>
   map_option (\<lambda>st. mSynthesisBuffer st ! 1)
     (remap example_externals
        (example_state\<lparr>mPitchShiftI := 16384, mPitchShift := 1 / 4,
                         mAnalysisBuffer := example_analysis\<rparr>))
   = Some \<lparr>Magnitude = 9, FreqBin = FreqBin (example_analysis ! 2) * (1 / 4)\<rparr> \<and>
   FreqBin (example_analysis ! 2) * (1 / 4) = 1 / 2"
proof -
  have "fold (remap_bin 16 16384 (1 / 4) example_analysis) [0..<513]
          (replicate 513 FrequencyBin0) ! 1
      = fold (\<lambda>k. merge_bin (1 / 4) (example_analysis ! k)) [2, 3, 4, 5]
          (replicate 513 FrequencyBin0 ! 1)"
    by (simp only: remap_loop_bin length_replicate quarter_sources)
  also have "\<dots> = \<lparr>Magnitude = 9, FreqBin = 1 / 2\<rparr>"
    by (simp add: example_analysis_def merge_bin_def FrequencyBin0_def)
  finally have "map_option (\<lambda>st. mSynthesisBuffer st ! 1)
     (remap example_externals
        (example_state\<lparr>mPitchShiftI := 16384, mPitchShift := 1 / 4,
                         mAnalysisBuffer := example_analysis\<rparr>))
     = Some \<lparr>Magnitude = 9, FreqBin = 1 / 2\<rparr>"
    by (simp add: remap_def Let_def example_externals_def example_state_def bin_count_quarter
          fill_replicate)
  moreover have "Magnitude (example_analysis ! 2) < Magnitude (example_analysis ! 4)"
    "Magnitude (example_analysis ! 3) < Magnitude (example_analysis ! 4)"
    "Magnitude (example_analysis ! 5) < Magnitude (example_analysis ! 4)"
    "FreqBin (example_analysis ! 4) * (1 / 4) = 1"
    "FreqBin (example_analysis ! 2) * (1 / 4) = 1 / 2"
    by (simp_all add: example_analysis_def FrequencyBin0_def)
  ultimately show ?thesis using quarter_sources by simp
qed

subsection \<open>A unit impulse through the first cycle after a reset\<close>

text \<open>
  The first cycle after \<^verbatim>\<open>deviceUpdate\<close>, on a block of 256 samples that starts
  with a unit impulse, with the discrete Fourier transform as the forward transform and the
  pitch ratio 1. The impulse is at the index 768 of the ring buffer when the cycle starts,
  the coefficient of the bin 22 is the negative real number \<open>- HannWindow ! 768\<close>, the
  analysis gives the bin the frequency 22, the remapping leaves it in place, and the
  resynthesis stores the wrapped phase of \<open>22 * expected_cycles\<close>.
\<close>

lemma fold_update_nth:
  "k < n \<Longrightarrow> n \<le> length xs \<Longrightarrow> fold (\<lambda>i acc. acc[i := g i]) [0..<n] xs ! k = g k"
proof (induction n)
  case 0
  thus ?case by simp
next
  case (Suc n)
  have l: "length (fold (\<lambda>i acc. acc[i := g i]) [0..<n] xs) = length xs"
    by (rule length_fold_update)
  show ?case
  proof (cases "k = n")
    case True
    thus ?thesis using Suc.prems l by simp
  next
    case False
    hence "k < n" using Suc.prems by simp
    thus ?thesis using Suc.IH Suc.prems False by simp
  qed
qed

lemma window_input_pos0:
  assumes "mPos st = 0" "length (mFftBuffer st) = StftSize"
  shows "k < StftSize \<Longrightarrow>
           mFftBuffer (window_input st) ! k = complex_of_real (mFIFO st ! k * HannWindow ! k)"
    and "length (mFftBuffer (window_input st)) = StftSize"
proof -
  have w: "mFftBuffer (window_input st)
      = fold (\<lambda>i acc. acc[i := complex_of_real (mFIFO st ! i * HannWindow ! i)])
          [0..<StftSize] (mFftBuffer st)"
    by (simp add: window_input_def Let_def assms(1))
  show "length (mFftBuffer (window_input st)) = StftSize"
    unfolding w by (simp add: length_fold_update assms(2))
  show "k < StftSize \<Longrightarrow>
           mFftBuffer (window_input st) ! k = complex_of_real (mFIFO st ! k * HannWindow ! k)"
    unfolding w by (rule fold_update_nth) (simp_all add: assms(2))
qed

lemma hann_fold_upper:
  assumes "length xs = 1024" "n \<le> 512" "i < n"
  shows "fold (\<lambda>i ret. (ret[1023 - i := v i])[i := v i]) [0..<n] xs ! (1023 - i) = v i"
  using assms(2,3)
proof (induction n)
  case 0
  thus ?case by simp
next
  case (Suc n)
  let ?r = "fold (\<lambda>i ret. (ret[1023 - i := v i])[i := v i]) [0..<n] xs"
  have l: "length ?r = 1024"
    by (induction n) (simp_all add: assms(1))
  show ?case
  proof (cases "i = n")
    case True
    thus ?thesis using Suc.prems l by simp
  next
    case False
    hence i: "i < n" using Suc.prems by simp
    hence "?r ! (1023 - i) = v i" using Suc.IH Suc.prems by simp
    thus ?thesis using i Suc.prems l by simp
  qed
qed

lemma HannWindow_768: "HannWindow ! 768 = (sin (511 * pi / 2048))\<^sup>2"
proof -
  define v where "v = (\<lambda>i. sin ((real i + 0.5) * (pi / 1024)) * sin ((real i + 0.5) * (pi / 1024)))"
  have F: "InitHannWindow
      = fold (\<lambda>i ret. (ret[1023 - i := v i])[i := v i]) [0..<512] (replicate 1024 0)"
    unfolding InitHannWindow_def Let_def StftSize_def StftHalfSize_def v_def by simp
  have "InitHannWindow ! (1023 - 255) = v 255"
    unfolding F by (rule hann_fold_upper) simp_all
  thus ?thesis by (simp add: HannWindow_def v_def power2_eq_square field_simps)
qed


lemma HannWindow_768_pos: "0 < HannWindow ! 768"
proof -
  have "0 < sin (511 * pi / 2048)"
    by (rule sin_gt_zero) (simp_all add: field_simps)
  thus ?thesis by (simp add: HannWindow_768)
qed

lemma dft_impulse:
  assumes l: "length buf = 1024" and z: "\<forall>n<1024. n \<noteq> 768 \<longrightarrow> buf ! n = 0" and k: "k < 1024"
  shows "dft buf ! k = buf ! 768 * cis (- (2 * pi * real k * 768 / 1024))"
proof -
  let ?f = "\<lambda>n. buf ! n * cis (- (2 * pi * real k * real n / real (length buf)))"
  have "dft buf ! k = (\<Sum>n<1024. ?f n)" using k by (simp add: dft_def l mult_ac)
  also have "\<dots> = ?f 768 + (\<Sum>n\<in>{..<1024} - {768}. ?f n)"
    by (rule sum.remove) simp_all
  also have "(\<Sum>n\<in>{..<1024} - {768}. ?f n) = 0"
    by (rule sum.neutral) (use z in auto)
  finally show ?thesis by (simp add: l)
qed

lemma cis_33: "cis (- (2 * pi * real 22 * 768 / 1024)) = - 1"
proof -
  have "- (2 * pi * real 22 * 768 / 1024) = - (33 * pi)" by simp
  moreover have "cos (33 * pi) = - 1" by simp
  moreover have "sin (33 * pi) = 0" by simp
  ultimately show ?thesis by (simp add: complex_eq_iff)
qed

lemma Arg_neg_real:
  assumes "0 < w"
  shows "Arg (complex_of_real (- w)) = pi"
proof (rule cis_Arg_unique)
  have "sgn (complex_of_real (- w)) = complex_of_real (sgn (- w))" by (simp add: sgn_of_real)
  also have "\<dots> = - 1" using assms by simp
  finally show "sgn (complex_of_real (- w)) = cis pi" by simp
qed simp_all

text \<open>The analysis bin 22 for a negative real coefficient and the last phase 0.\<close>

lemma analysis_spec_negative:
  assumes "0 < w"
  shows "analysis_spec 22 (complex_of_real (- w)) 0 = \<lparr>Magnitude = w, FreqBin = 22\<rparr>"
proof -
  have "fold_unit 0 = 0" by (simp add: fold_unit_def c_round_def)
  moreover have "((pi - 0) - real (22 mod OversampleFactor) * (2 * pi / real OversampleFactor)) / pi = 0"
    by (simp add: OversampleFactor_def)
  ultimately show ?thesis
    using assms by (simp add: analysis_spec_def Arg_neg_real[OF assms] del: of_real_minus)
qed

text \<open>The remapping at the pitch ratio 1: every bin is its own destination.\<close>

lemma bin_count_unity: "bin_count 16 65536 = Some 513"
  by (simp add: bin_count_def bin_limit_def MixerFracHalf_def MixerFracOne_def minz_def
        StftHalfSize_def StftSize_def)

lemma bin_dest_unity:
  assumes "k < 513"
  shows "unat (bin_dest 16 65536 (word_of_nat k)) = k"
proof -
  have k: "k < unat (513 :: size_t)" using assms by simp
  have "unat (bin_dest 16 65536 (word_of_nat k))
      = (unat (word_of_nat k :: size_t) * unat (65536 :: uint) + 2 ^ 16 div 2) div 2 ^ 16"
    by (rule unat_bin_dest(1)[OF _ bin_count_unity scanned_bin_less(1)[OF k]]) simp
  hence "unat (bin_dest 16 65536 (word_of_nat k)) = (k * 65536 + 32768) div 65536"
    by (simp add: scanned_bin_less(2)[OF k])
  thus ?thesis by simp
qed

lemma unity_sources:
  "filter (\<lambda>k. unat (bin_dest 16 65536 (word_of_nat k)) = 22) [0..<513] = [22]"
proof -
  have "filter (\<lambda>k. unat (bin_dest 16 65536 (word_of_nat k)) = 22) [0..<513]
      = filter (\<lambda>k. 22 \<le> k \<and> k < 23) [0..<513]"
  proof (rule filter_cong[OF refl])
    fix k assume "k \<in> set [0..<513]"
    hence k: "k < 513" by simp
    show "(unat (bin_dest 16 65536 (word_of_nat k)) = 22) = (22 \<le> k \<and> k < 23)"
      unfolding bin_dest_unity[OF k] by arith
  qed
  also have "\<dots> = [22..<min 23 513]" by (rule filter_interval)
  also have "\<dots> = [22]" by code_simp
  finally show ?thesis .
qed

lemma remap_unity_bin:
  assumes E: "MixerFracBits E = 16" and p: "mPitchShiftI st = 65536" "mPitchShift st = 1"
    and l: "length (mSynthesisBuffer st) = 513"
    and a: "mAnalysisBuffer st ! 22 = \<lparr>Magnitude = w, FreqBin = 22\<rparr>" "0 < w"
    and r: "remap E st = Some st'"
  shows "FreqBin (mSynthesisBuffer st' ! 22) = 22"
proof -
  have st': "st' = st\<lparr>mSynthesisBuffer :=
        fold (remap_bin 16 65536 1 (mAnalysisBuffer st)) [0..<513]
             (fill (mSynthesisBuffer st) FrequencyBin0)\<rparr>"
    using r by (simp add: remap_def Let_def E p bin_count_unity)
  have "fold (remap_bin 16 65536 1 (mAnalysisBuffer st)) [0..<513]
             (fill (mSynthesisBuffer st) FrequencyBin0) ! 22
      = fold (\<lambda>k. merge_bin 1 (mAnalysisBuffer st ! k))
          (filter (\<lambda>k. unat (bin_dest 16 65536 (word_of_nat k)) = 22) [0..<513])
          (fill (mSynthesisBuffer st) FrequencyBin0 ! 22)"
    by (rule remap_loop_bin) (simp add: fill_replicate l)
  also have "\<dots> = merge_bin 1 (mAnalysisBuffer st ! 22) FrequencyBin0"
    by (simp add: unity_sources fill_replicate l)
  finally show ?thesis using a by (simp add: st' merge_bin_def FrequencyBin0_def)
qed

text \<open>The resynthesis loop, bin by bin.\<close>

lemma synthesize_loop_above:
  "n \<le> k \<Longrightarrow> mSumPhase (fold synthesize_bin [0..<n] st) ! k = mSumPhase st ! k"
  by (induction n) (simp_all add: synthesize_bin_sum_phase)

lemma synthesize_loop_buffer:
  "mSynthesisBuffer (fold synthesize_bin ks st) = mSynthesisBuffer st"
  by (rule fold_frame) simp

lemma synthesize_loop_length:
  "length (mSumPhase (fold synthesize_bin ks st)) = length (mSumPhase st)"
  by (rule fold_length) (simp add: synthesize_bin_sum_phase)

lemma synthesize_loop_bin:
  assumes "k < n" "k < length (mSumPhase st)"
  shows "mSumPhase (fold synthesize_bin [0..<n] st) ! k
           = wrap_phase (dadd (mSumPhase st ! k)
                           (dmul (FreqBin (mSynthesisBuffer st ! k)) expected_cycles_d))"
  using assms(1)
proof (induction n)
  case 0
  thus ?case by simp
next
  case (Suc n)
  let ?s = "fold synthesize_bin [0..<n] st"
  have l: "k < length (mSumPhase ?s)" using assms(2) by (simp add: synthesize_loop_length)
  show ?case
  proof (cases "k = n")
    case True
    have "mSumPhase ?s ! k = mSumPhase st ! k" using True by (simp add: synthesize_loop_above)
    thus ?thesis using True l
      by (simp add: synthesize_bin_sum_phase synthesize_loop_buffer)
  next
    case False
    hence "k < n" using Suc.prems by simp
    thus ?thesis using Suc.IH False l by (simp add: synthesize_bin_sum_phase)
  qed
qed


text \<open>
  One cycle at the cursor 0 and the pitch ratio 1, with the discrete Fourier transform,
  on a ring buffer that holds a unit impulse at 768.
\<close>

lemma hop_impulse:
  assumes E: "forward_fft E = dft" "MixerFracBits E = 16"
    and p: "mPos st = 0" "mPitchShiftI st = 65536" "mPitchShift st = 1"
    and l: "length (mFftBuffer st) = StftSize" "length (mAnalysisBuffer st) = 513"
      "length (mSynthesisBuffer st) = 513" "length (mSumPhase st) = 513"
    and z: "mLastPhase st ! 22 = 0" "mSumPhase st ! 22 = 0"
    and f: "\<forall>n<1024. n \<noteq> 768 \<longrightarrow> mFIFO st ! n = 0" "mFIFO st ! 768 = 1"
    and h: "hop E st = Some st'"
  shows "mSumPhase st' ! 22 = - (221069929750889 / 2 ^ 46)"
proof -
  define buf where "buf = mFftBuffer (window_input st)"
  define stw where "stw = (window_input st)\<lparr>mFftBuffer := forward_fft E buf\<rparr>"
  define sta where "sta = analyze stw"
  define w where "w = HannWindow ! 768"
  have w: "0 < w" unfolding w_def by (rule HannWindow_768_pos)
  from h obtain st1 where r: "remap E sta = Some st1"
    and s: "st' = copy_out (overlap_add ((synthesize st1)\<lparr>mFftBuffer := inverse_fft E (mFftBuffer (synthesize st1))\<rparr>))"
    by (auto simp: hop_def hop_spectral_def Let_def sta_def stw_def buf_def split: option.splits)
  have bl: "length buf = 1024"
    unfolding buf_def using window_input_pos0(2)[OF p(1) l(1)] by (simp add: StftSize_def)
  have bn: "buf ! n = complex_of_real (mFIFO st ! n * HannWindow ! n)" if "n < 1024" for n
    unfolding buf_def by (rule window_input_pos0(1)[OF p(1) l(1)]) (use that in \<open>simp add: StftSize_def\<close>)
  have b0: "\<forall>n<1024. n \<noteq> 768 \<longrightarrow> buf ! n = 0" using bn f(1) by simp
  have b1: "buf ! 768 = complex_of_real w" using bn[of 768] f(2) by (simp add: w_def)
  have "dft buf ! 22 = buf ! 768 * cis (- (2 * pi * real 22 * 768 / 1024))"
    by (rule dft_impulse[OF bl b0]) simp
  hence zz: "mFftBuffer stw ! 22 = complex_of_real (- w)"
    unfolding cis_33 b1 by (simp add: stw_def E(1))
  have "mAnalysisBuffer sta ! 22
      = analysis_spec 22 (mFftBuffer stw ! 22) (mLastPhase stw ! 22)"
    unfolding sta_def analyze_def
    by (rule analyze_loop_bin(2)) (simp_all add: stw_def l StftHalfSize_def StftSize_def)
  also have "\<dots> = \<lparr>Magnitude = w, FreqBin = 22\<rparr>"
    unfolding zz using analysis_spec_negative[OF w] by (simp add: stw_def z)
  finally have an: "mAnalysisBuffer sta ! 22 = \<lparr>Magnitude = w, FreqBin = 22\<rparr>" .
  have "FreqBin (mSynthesisBuffer st1 ! 22) = 22"
    by (rule remap_unity_bin[OF E(2) _ _ _ an w r]) (simp_all add: sta_def stw_def p l)
  moreover have m1: "mSumPhase st1 = mSumPhase st"
    using remap_frame(7)[OF r] by (simp add: sta_def stw_def)
  moreover have "mSumPhase (fold synthesize_bin [0..<StftHalfSize + 1] st1) ! 22
      = wrap_phase (dadd (mSumPhase st1 ! 22)
                      (dmul (FreqBin (mSynthesisBuffer st1 ! 22)) expected_cycles_d))"
    by (rule synthesize_loop_bin) (simp_all add: m1 l StftHalfSize_def StftSize_def)
  ultimately have "mSumPhase (fold synthesize_bin [0..<StftHalfSize + 1] st1) ! 22
      = wrap_phase (dadd 0 (dmul 22 expected_cycles_d))"
    by (simp add: z)
  also have "\<dots> = - (221069929750889 / 2 ^ 46)"
    unfolding example_advance by (rule example_wrap)
  finally show ?thesis by (simp add: s synthesize_def Let_def)
qed

lemma process_loop_first_cycle:
  assumes "mCount st = 0"
  shows "process_loop E 256 inp 0 st
           = hop E ((framer_chunk inp 0 256 st)\<lparr>mCount := 0, mPos := (mPos st + 256) mod 1024\<rparr>)"
proof -
  have t: "minz (size_t_sub StftStep (mCount st)) (256 - 0) = 256"
    by (simp add: assms minz_def size_t_sub_def StftStep_def StftSize_def OversampleFactor_def)
  have m: "x AND 1023 = x mod 1024" for x :: nat
    using mask_1023[of x] by (simp add: StftSize_def)
  have e: "process_loop E 256 inp 256 s = Some s" for s
    by (simp add: process_loop.simps[of E 256 inp 256 s])
  show ?thesis
    unfolding process_loop.simps[of E 256 inp 0 st] t Let_def
    by (simp add: assms e m framer_chunk_def Let_def StftStep_def StftSize_def OversampleFactor_def
          split: option.splits)
qed

lemma impulse_input_nth:
  "impulse_input ! 0 = 1" "0 < i \<Longrightarrow> i < 256 \<Longrightarrow> impulse_input ! i = 0"
  by (simp_all add: impulse_input_def nth_Cons')

lemma impulse_run:
  "\<exists>st. run impulse_externals [Process 256 [impulse_input] [[]]]
            (deviceUpdate impulse_externals example_state) = Some st \<and>
        mSumPhase st ! 22 = - (221069929750889 / 2 ^ 46)"
proof -
  define st0 where "st0 = deviceUpdate impulse_externals example_state"
  define st3 where "st3 = (framer_chunk impulse_input 0 256 st0)\<lparr>mCount := 0, mPos := (mPos st0 + 256) mod 1024\<rparr>"
  have E: "forward_fft impulse_externals = dft" "MixerFracBits impulse_externals = 16"
    by (simp_all add: impulse_externals_def example_externals_def)
  have c0: "mCount st0 = 0" by (simp add: st0_def deviceUpdate_def)
  have pl: "process_loop impulse_externals 256 impulse_input 0 st0 = hop impulse_externals st3"
    unfolding st3_def by (rule process_loop_first_cycle[OF c0])
  have ps: "mPitchShiftI st3 = 65536"
    by (simp add: st3_def st0_def deviceUpdate_def E(2) MixerFracOne_def)
  hence "mPitchShiftI st3 \<noteq> 0" by simp
  then obtain st4 where h: "hop impulse_externals st3 = Some st4" using hop_total by blast
  have p: "mPos st3 = 0" "mPitchShift st3 = 1"
    by (simp_all add: st3_def st0_def deviceUpdate_def StftSize_def StftStep_def OversampleFactor_def)
  have l: "length (mFftBuffer st3) = StftSize" "length (mAnalysisBuffer st3) = 513"
      "length (mSynthesisBuffer st3) = 513" "length (mSumPhase st3) = 513"
    by (simp_all add: st3_def st0_def deviceUpdate_def fill_replicate example_state_def StftSize_def)
  have z: "mLastPhase st3 ! 22 = 0" "mSumPhase st3 ! 22 = 0"
    by (simp_all add: st3_def st0_def deviceUpdate_def fill_replicate example_state_def)
  have fifo: "mFIFO st3 = copy_n impulse_input 0 256 (replicate 1024 0) 768"
    by (simp add: st3_def st0_def framer_chunk_def Let_def deviceUpdate_def fill_replicate
          example_state_def StftSize_def StftStep_def OversampleFactor_def)
  have fn: "mFIFO st3 ! n = (if 768 \<le> n \<and> n < 768 + 256 then impulse_input ! (0 + (n - 768)) else replicate 1024 0 ! n)"
    if "n < 1024" for n
    unfolding fifo by (rule copy_n_nth) (use that in simp)
  have f0: "\<forall>n<1024. n \<noteq> 768 \<longrightarrow> mFIFO st3 ! n = 0"
  proof (intro allI impI)
    fix n :: nat assume n: "n < 1024" "n \<noteq> 768"
    show "mFIFO st3 ! n = 0"
    proof (cases "768 \<le> n")
      case True
      hence "0 < n - 768" "n - 768 < 256" using n by simp_all
      thus ?thesis using fn[OF n(1)] True n(1) by (simp add: impulse_input_nth(2))
    next
      case False
      thus ?thesis using fn[OF n(1)] n(1) by simp
    qed
  qed
  have f1: "mFIFO st3 ! 768 = 1" using fn[of 768] by (simp add: impulse_input_nth(1))
  have v: "mSumPhase st4 ! 22 = - (221069929750889 / 2 ^ 46)"
    by (rule hop_impulse[OF E p(1) ps p(2) l z f0 f1 h])
  obtain out gains where mx: "MixSamples impulse_externals (take 256 (mBufferOut st4)) [[]]
      (mCurrentGains st4) (mTargetGains st4) (maxz 256 512) 0 = (out, gains)"
    by (cases "MixSamples impulse_externals (take 256 (mBufferOut st4)) [[]]
      (mCurrentGains st4) (mTargetGains st4) (maxz 256 512) 0")
  have "run impulse_externals [Process 256 [impulse_input] [[]]] st0
      = Some (st4\<lparr>mCurrentGains := gains\<rparr>)"
    by (simp add: process_def pl h mx)
  thus ?thesis using v by (simp add: st0_def)
qed

subsection \<open>C4: the accumulated phase\<close>

text \<open>
  C4, as stated by the specification, does not hold: the wrap is computed on
  \<^verbatim>\<open>double\<close>, and its rounding can leave the stored phase outside of the interval from
  \<open>- pi\<close> to \<open>pi\<close>. In the first cycle after a reset, a bin with the destination
  frequency 22 gets the accumulated phase \<open>- 221069929750889 / 2 ^ 46\<close>, that is
  \<^verbatim>\<open>-3.1415926535897967\<close>, which is below \<open>- pi\<close>. The bin has that frequency and
  the phase 0 in the first cycle of a run on a unit impulse at the pitch ratio 1 (lemma
  \<open>impulse_run\<close>).
\<close>

theorem sum_phase_below_minus_pi:
  "mSumPhase (synthesize_bin 22 example_synthesis_state) ! 22 = - (221069929750889 / 2 ^ 46) \<and>
   mSumPhase (synthesize_bin 22 example_synthesis_state) ! 22 < - pi"
proof -
  have "mSumPhase (synthesize_bin 22 example_synthesis_state) ! 22
      = wrap_phase (dadd 0 (dmul 22 expected_cycles_d))"
    by (simp add: synthesize_bin_sum_phase example_synthesis_state_def example_state_def)
  also have "\<dots> = - (221069929750889 / 2 ^ 46)"
    unfolding example_advance by (rule example_wrap)
  finally have a: "mSumPhase (synthesize_bin 22 example_synthesis_state) ! 22
      = - (221069929750889 / 2 ^ 46)" .
  have "- (221069929750889 / 2 ^ 46) < - pi" using pi_upper by simp
  thus ?thesis using a by simp
qed

text \<open>
  C4, amended. After \<^verbatim>\<open>deviceUpdate\<close> and any number of calls that follow it, hence
  after any number of cycles, every entry of \<^verbatim>\<open>mSumPhase\<close> is at most
  \<open>pi * (1 + 1 / 2 ^ 33)\<close> in magnitude, whatever the input samples and the tunings: the
  rounding of a wrap can take a phase beyond \<open>pi\<close>, by less than \<open>4 / 10 ^ 10\<close>, and the
  excess does not accumulate. The mixer has between 16 and 30 fractional bits, and the
  arrays of the state have their sizes. Along such a run the quotient that
  \<^verbatim>\<open>double2int\<close> converts is at most 87727 in magnitude (lemma
  \<open>synthesize_quotient_in_range\<close>), so that the \<^verbatim>\<open>int\<close> of the code holds it.
\<close>

theorem sum_phase_near_pi:
  assumes "16 \<le> MixerFracBits E" "MixerFracBits E \<le> 30"
    and "spectral_wf st0"
    and "run E cs (deviceUpdate E st0) = Some st"
  shows "length (mSumPhase st) = StftHalfSize + 1 \<and>
         (\<forall>k \<le> StftHalfSize. \<bar>mSumPhase st ! k\<bar> \<le> pi * (1 + 1 / 2 ^ 33))"
proof -
  have "phase_run_inv E st"
    by (rule run_phase_run_inv[OF assms(1,2) deviceUpdate_phase_run_inv[OF assms(2,3)] assms(4)])
  hence l: "length (mSumPhase st) = StftHalfSize + 1" and p: "phase_inv st"
    by (simp_all add: phase_run_inv_def spectral_wf_def)
  have "\<bar>mSumPhase st ! k\<bar> \<le> pi * (1 + 1 / 2 ^ 33)" if "k \<le> StftHalfSize" for k
  proof -
    have "mSumPhase st ! k \<in> set (mSumPhase st)" using that l by simp
    thus ?thesis using p by (simp add: phase_inv_def phase_bound_def)
  qed
  thus ?thesis using l by blast
qed

lemma example_spectral_wf: "spectral_wf example_state"
  by (simp add: spectral_wf_def example_state_def StftHalfSize_def StftSize_def)

text \<open>
  The theorem on the run of the unit impulse: after one cycle the accumulated phase of the
  bin 22 is \<open>- 221069929750889 / 2 ^ 46\<close>, beyond \<open>- pi\<close> and within the bound.
\<close>

theorem sum_phase_near_pi_witness:
  "\<exists>st. 16 \<le> MixerFracBits impulse_externals \<and> MixerFracBits impulse_externals \<le> 30 \<and>
        spectral_wf example_state \<and>
        run impulse_externals [Process 256 [impulse_input] [[]]]
            (deviceUpdate impulse_externals example_state) = Some st \<and>
        length (mSumPhase st) = StftHalfSize + 1 \<and> 22 \<le> StftHalfSize \<and>
        mSumPhase st ! 22 = - (221069929750889 / 2 ^ 46) \<and>
        \<bar>mSumPhase st ! 22\<bar> \<le> pi * (1 + 1 / 2 ^ 33)"
proof -
  obtain st where r: "run impulse_externals [Process 256 [impulse_input] [[]]]
            (deviceUpdate impulse_externals example_state) = Some st"
    and v: "mSumPhase st ! 22 = - (221069929750889 / 2 ^ 46)"
    using impulse_run by blast
  have fb: "16 \<le> MixerFracBits impulse_externals" "MixerFracBits impulse_externals \<le> 30"
    by (simp_all add: impulse_externals_def example_externals_def)
  note t = sum_phase_near_pi[OF fb example_spectral_wf r]
  have k: "22 \<le> StftHalfSize" by (simp add: StftHalfSize_def StftSize_def)
  hence "\<bar>mSumPhase st ! 22\<bar> \<le> pi * (1 + 1 / 2 ^ 33)" using t by blast
  thus ?thesis using r v t fb k example_spectral_wf by blast
qed

end
